theory Spec2Isabelle
  imports Main "HOL-Library.Char_ord" "HOL-Library.List_Lexorder" "HOL-Library.Sublist"
begin

section \<open>Calendar time\<close>

text \<open>
  A Go \<^verbatim>\<open>time.Time\<close> is modelled by its civil fields in UTC: the year (any integer, the
  year 0 and negative years included), the month, the day of the month and the nanoseconds
  since midnight. The zero value \<^verbatim>\<open>time.Time{}\<close> is January 1 of the year 1, 00:00:00.
\<close>

record time =
  year :: int
  month :: int
  day :: int
  nsec :: int

definition zero_time :: time where
  "zero_time = \<lparr>year = 1, month = 1, day = 1, nsec = 0\<rparr>"

definition isLeap :: "int \<Rightarrow> bool" where
  "isLeap y = (y mod 4 = 0 \<and> (y mod 100 \<noteq> 0 \<or> y mod 400 = 0))"

definition daysIn :: "int \<Rightarrow> int \<Rightarrow> int" where
  "daysIn m y =
     (if m = 2 then (if isLeap y then 29 else 28)
      else if m = 4 \<or> m = 6 \<or> m = 9 \<or> m = 11 then 30 else 31)"

text \<open>The values a \<^verbatim>\<open>time.Time\<close> can hold: a real day of a real month.\<close>

definition valid_time :: "time \<Rightarrow> bool" where
  "valid_time t =
     (1 \<le> month t \<and> month t \<le> 12 \<and> 1 \<le> day t \<and> day t \<le> daysIn (month t) (year t)
      \<and> 0 \<le> nsec t \<and> nsec t < 86400000000000)"

definition IsZero :: "time \<Rightarrow> bool" where
  "IsZero t = (year t = 1 \<and> month t = 1 \<and> day t = 1 \<and> nsec t = 0)"

text \<open>\<^verbatim>\<open>t.Before(u)\<close>: the instant t is strictly earlier than u.\<close>

definition Before :: "time \<Rightarrow> time \<Rightarrow> bool" where
  "Before t u =
     (year t < year u \<or> (year t = year u \<and>
       (month t < month u \<or> (month t = month u \<and>
         (day t < day u \<or> (day t = day u \<and> nsec t < nsec u))))))"

text \<open>
  \<^verbatim>\<open>t.AddDate(0, months, 0)\<close>. Go adds to the month, carries the month into the year
  (\<^verbatim>\<open>norm\<close>), and lets a day past the end of the new month run over into the next one:
  March 31 minus one month is "February 31", which is March 3 (March 2 in a leap year).
  A day of the month is at most 31 and a month has at least 28 days, so the overflow never
  passes the following month.
\<close>

definition AddDate_months :: "time \<Rightarrow> int \<Rightarrow> time" where
  "AddDate_months t months =
     (let m0 = month t - 1 + months;
          y = year t + m0 div 12;
          m = m0 mod 12 + 1;
          dim = daysIn m y
      in if day t \<le> dim then t\<lparr>year := y, month := m\<rparr>
         else if m = 12 then t\<lparr>year := y + 1, month := 1, day := day t - dim\<rparr>
         else t\<lparr>year := y, month := m + 1, day := day t - dim\<rparr>)"

subsection \<open>Formatting and parsing the layout 2006-01-02\<close>

definition digit :: "int \<Rightarrow> char" where
  "digit n = char_of (48 + n)"

definition isDigit :: "char \<Rightarrow> bool" where
  "isDigit c = (48 \<le> (of_char c :: int) \<and> (of_char c :: int) \<le> 57)"

definition digit_val :: "char \<Rightarrow> int" where
  "digit_val c = of_char c - 48"

function decimal :: "int \<Rightarrow> string" where
  "decimal n = (if n < 10 then [digit n] else decimal (n div 10) @ [digit (n mod 10)])"
  by pat_completeness auto
termination
  by (relation "measure nat") auto

declare decimal.simps [simp del]

text \<open>\<^verbatim>\<open>appendInt\<close>: a sign for a negative number, then the digits, zero-padded to the width.\<close>

definition appendInt :: "int \<Rightarrow> nat \<Rightarrow> string" where
  "appendInt x width =
     (let ds = decimal \<bar>x\<bar>
      in (if x < 0 then ''-'' else []) @ replicate (width - length ds) (CHR ''0'') @ ds)"

text \<open>\<^verbatim>\<open>t.Format(dateFormat)\<close> with \<^verbatim>\<open>dateFormat = "2006-01-02"\<close>.\<close>

definition Format_date :: "time \<Rightarrow> string" where
  "Format_date t = appendInt (year t) 4 @ ''-'' @ appendInt (month t) 2 @ ''-'' @ appendInt (day t) 2"

text \<open>
  \<^verbatim>\<open>time.Parse(dateFormat, s)\<close>: four digits, a dash, two digits, a dash, two digits and
  nothing after them ("extra text" is an error); the month must be 1 to 12 and the day must
  exist in that month. \<open>None\<close> is the parse error.
\<close>

fun Parse_date :: "string \<Rightarrow> time option" where
  "Parse_date [y1, y2, y3, y4, s1, m1, m2, s2, d1, d2] =
     (if isDigit y1 \<and> isDigit y2 \<and> isDigit y3 \<and> isDigit y4 \<and> s1 = CHR ''-''
         \<and> isDigit m1 \<and> isDigit m2 \<and> s2 = CHR ''-'' \<and> isDigit d1 \<and> isDigit d2
      then
        (let y = digit_val y1 * 1000 + digit_val y2 * 100 + digit_val y3 * 10 + digit_val y4;
             m = digit_val m1 * 10 + digit_val m2;
             d = digit_val d1 * 10 + digit_val d2
         in if m < 1 \<or> 12 < m then None
            else if d < 1 \<or> daysIn m y < d then None
            else Some \<lparr>year = y, month = m, day = d, nsec = 0\<rparr>)
      else None)"
| "Parse_date _ = None"

section \<open>Records, errors and the store\<close>

record tender =
  ID :: string
  URL :: string
  Description :: string
  Agency :: string
  IssuedDate :: time
  CloseDate :: time

text \<open>Every error value the discovery code creates or passes on.\<close>

datatype error =
    InsertErr
  | AffectedErr
  | QueryErr
  | TransportErr
  | StatusErr nat
  | ReadBodyErr
  | UnmarshalErr
  | NoTokenErr
  | AtoiErr
  | ParseErr string
  | BadClosingDate string
  | FirstTokenErr
  | MissingHref string
  | DateSpansErr string nat
  | UrlParseErr
  | PlaywrightErr string
  | NoResponses
  | CutTitleErr string

text \<open>
  One line of the table \<^verbatim>\<open>tenders\<close>
  (\<^verbatim>\<open>id text primary key, url, description, agency, issued, close, first_observed\<close>);
  the three date columns hold text.
\<close>

record row =
  col_id :: string
  col_url :: string
  col_description :: string
  col_agency :: string
  col_issued :: string
  col_close :: string
  col_first_observed :: string

text \<open>
  What the code reaches through \<^verbatim>\<open>store.db\<close> and \<^verbatim>\<open>time.Now()\<close>: the table in
  insertion order, the outcome of the coming database statements (an empty list: all of
  them succeed) and the system clock, read once per call of \<^verbatim>\<open>time.Now()\<close>.
\<close>

datatype fault = NoFault | StmtFault | ResultFault

record world =
  tenders :: "row list"
  faults :: "fault list"
  now_at :: "nat \<Rightarrow> time"
  ticks :: nat

definition time_Now :: "world \<Rightarrow> time \<times> world" where
  "time_Now w = (now_at w (ticks w), w\<lparr>ticks := Suc (ticks w)\<rparr>)"

definition next_fault :: "world \<Rightarrow> fault \<times> world" where
  "next_fault w = (case faults w of [] \<Rightarrow> (NoFault, w) | f # fs \<Rightarrow> (f, w\<lparr>faults := fs\<rparr>))"

text \<open>
  The driver writes a \<^verbatim>\<open>time.Time\<close> argument as text in the layout
  \<^verbatim>\<open>2006-01-02 15:04:05.999999999-07:00\<close> (the data source name asks for
  \<^verbatim>\<open>_time_format=sqlite\<close>): the date, a space, the time of day with the fraction of a
  second cut after its last non-zero digit, and the zone offset, here UTC.
\<close>

fun frac9 :: "string \<Rightarrow> string" where
  "frac9 ds = (if ds = [] then [] else if last ds = CHR ''0'' then frac9 (butlast ds) else ds)"

declare frac9.simps [simp del]

definition Format_clock :: "int \<Rightarrow> string" where
  "Format_clock ns =
     (let s = ns div 1000000000;
          f = frac9 (appendInt (ns mod 1000000000) 9)
      in appendInt (s div 3600) 2 @ '':'' @ appendInt (s div 60 mod 60) 2 @ '':''
         @ appendInt (s mod 60) 2 @ (if f = [] then [] else ''.'' @ f))"

definition Format_sqlite :: "time \<Rightarrow> string" where
  "Format_sqlite t = Format_date t @ '' '' @ Format_clock (nsec t) @ ''+00:00''"

text \<open>
  \<^verbatim>\<open>insert into tenders (...) values (...) on conflict do nothing\<close>: a line whose id is
  already in the table is dropped and no row is affected. The statement may fail as a whole
  (\<open>StmtFault\<close>), or run and then fail to report its row count (\<open>ResultFault\<close>).
\<close>

definition Exec_insert :: "row \<Rightarrow> world \<Rightarrow> (error + (error + nat)) \<times> world" where
  "Exec_insert r w =
     (case next_fault w of (f, w1) \<Rightarrow>
        if f = StmtFault then (Inl InsertErr, w1)
        else
          (let conflict = (col_id r \<in> set (map col_id (tenders w1)));
               w2 = (if conflict then w1 else w1\<lparr>tenders := tenders w1 @ [r]\<rparr>);
               ra = (if conflict then 0 else 1)
           in (Inr (if f = ResultFault then Inl AffectedErr else Inr ra), w2)))"

text \<open>
  \<^verbatim>\<open>store.add\<close>: the insert with the record's fields, its two dates formatted as
  \<^verbatim>\<open>2006-01-02\<close> and \<^verbatim>\<open>time.Now()\<close>; then whether a row was affected.
\<close>

definition row_of :: "tender \<Rightarrow> time \<Rightarrow> row" where
  "row_of t now =
     \<lparr>col_id = ID t, col_url = URL t, col_description = Description t, col_agency = Agency t,
      col_issued = Format_date (IssuedDate t), col_close = Format_date (CloseDate t),
      col_first_observed = Format_sqlite now\<rparr>"

definition add :: "tender \<Rightarrow> world \<Rightarrow> (error + bool) \<times> world" where
  "add t w =
     (case time_Now w of (now, w0) \<Rightarrow>
        (case Exec_insert (row_of t now) w0 of
           (Inl e, w1) \<Rightarrow> (Inl e, w1)
         | (Inr (Inl e), w1) \<Rightarrow> (Inl e, w1)
         | (Inr (Inr ra), w1) \<Rightarrow> (Inr (ra > 0), w1)))"

text \<open>
  \<^verbatim>\<open>select max(col) from tenders\<close> scanned into a \<^verbatim>\<open>sql.NullString\<close>: the greatest text
  of the column in byte order, \<open>None\<close> (not valid) for an empty table.
\<close>

definition sql_max :: "string list \<Rightarrow> string option" where
  "sql_max xs = (case xs of [] \<Rightarrow> None | x # ys \<Rightarrow> Some (fold max ys x))"

definition QueryRow_max :: "(row \<Rightarrow> string) \<Rightarrow> world \<Rightarrow> (error + string option) \<times> world" where
  "QueryRow_max col w =
     (case next_fault w of (f, w1) \<Rightarrow>
        if f = NoFault then (Inr (sql_max (map col (tenders w1))), w1) else (Inl QueryErr, w1))"

text \<open>
  \<^verbatim>\<open>store.maxIssued\<close> and \<^verbatim>\<open>store.maxObserved\<close>: the same body over the columns
  \<^verbatim>\<open>issued\<close> and \<^verbatim>\<open>first_observed\<close>. A text that does not parse as a date gives the zero
  time and no error.
\<close>

definition max_column :: "(row \<Rightarrow> string) \<Rightarrow> world \<Rightarrow> (error + time) \<times> world" where
  "max_column col w =
     (case QueryRow_max col w of
        (Inl e, w1) \<Rightarrow> (Inl e, w1)
      | (Inr ts, w1) \<Rightarrow>
          (case ts of
             None \<Rightarrow> (Inr zero_time, w1)
           | Some s \<Rightarrow>
               (case Parse_date s of
                  None \<Rightarrow> (Inr zero_time, w1)
                | Some t \<Rightarrow> (Inr t, w1))))"

definition maxIssued :: "world \<Rightarrow> (error + time) \<times> world" where
  "maxIssued w = max_column col_issued w"

definition maxObserved :: "world \<Rightarrow> (error + time) \<times> world" where
  "maxObserved w = max_column col_first_observed w"

section \<open>The discovery driver\<close>

text \<open>
  \<^verbatim>\<open>findNew\<close> takes a client and calls its \<^verbatim>\<open>List\<close> method; the three clients differ, the
  driver's loop does not. A client is a state \<open>'c\<close> with a function that lists one page and
  returns the client's new state.
\<close>

type_synonym 'c lister = "'c \<Rightarrow> string \<Rightarrow> (error + tender list \<times> string) \<times> 'c"

text \<open>How the range loop over one page ends: an error, \<^verbatim>\<open>break outer\<close>, or its last record.\<close>

datatype flow = Failed error | BreakOuter "tender list" | PageDone "tender list"

text \<open>
  The inner loop. \<open>rel\<close> is the date compared with the cut-off: \<^verbatim>\<open>t.IssuedDate\<close> in the
  clients that trust the issue date, \<^verbatim>\<open>t.CloseDate\<close> in the browser client.
\<close>

fun range_page :: "(tender \<Rightarrow> time) \<Rightarrow> time \<Rightarrow> tender list \<Rightarrow> tender list \<Rightarrow> world \<Rightarrow> flow \<times> world" where
  "range_page rel start [] nt st = (PageDone nt, st)"
| "range_page rel start (t # ct) nt st =
     (case add t st of
        (Inl e, st1) \<Rightarrow> (Failed e, st1)
      | (Inr isNew, st1) \<Rightarrow>
          (let nt1 = (if isNew then nt @ [t] else nt)
           in if Before (rel t) start then (BreakOuter nt1, st1)
              else range_page rel start ct nt1 st1))"

text \<open>The outer loop \<^verbatim>\<open>for { ... }\<close>; it has no bound of its own, so it may not return.\<close>

partial_function (option) paging ::
  "'c lister \<Rightarrow> (tender \<Rightarrow> time) \<Rightarrow> time \<Rightarrow> string \<Rightarrow> tender list \<Rightarrow> 'c \<Rightarrow> world
     \<Rightarrow> ((error + tender list) \<times> 'c \<times> world) option" where
  "paging List rel start token nt cl st =
     (case List cl token of
        (Inl e, cl1) \<Rightarrow> Some (Inl e, cl1, st)
      | (Inr (ct, nextToken), cl1) \<Rightarrow>
          (case range_page rel start ct nt st of
             (Failed e, st1) \<Rightarrow> Some (Inl e, cl1, st1)
           | (BreakOuter nt1, st1) \<Rightarrow> Some (Inr nt1, cl1, st1)
           | (PageDone nt1, st1) \<Rightarrow>
               if nextToken = [] then Some (Inr nt1, cl1, st1)
               else paging List rel start nextToken nt1 cl1 st1))"

declare paging.simps [code]

text \<open>\<^verbatim>\<open>findNew\<close> of the token and form clients: the cut-off comes from the issue dates.\<close>

definition findNew_issued ::
  "'c lister \<Rightarrow> 'c \<Rightarrow> world \<Rightarrow> ((error + tender list) \<times> 'c \<times> world) option" where
  "findNew_issued List cl st =
     (case maxIssued st of
        (Inl e, st1) \<Rightarrow> Some (Inl e, cl, st1)
      | (Inr mx, st1) \<Rightarrow>
          (let start = (if \<not> IsZero mx then AddDate_months mx (- 1) else mx)
           in paging List IssuedDate start [] [] cl st1))"

text \<open>\<^verbatim>\<open>findNew\<close> of the browser client: the cut-off comes from the first-observed times.\<close>

definition findNew_observed ::
  "'c lister \<Rightarrow> 'c \<Rightarrow> world \<Rightarrow> ((error + tender list) \<times> 'c \<times> world) option" where
  "findNew_observed List cl st =
     (case maxObserved st of
        (Inl e, st1) \<Rightarrow> Some (Inl e, cl, st1)
      | (Inr mx, st1) \<Rightarrow>
          (case (if IsZero mx then time_Now st1 else (mx, st1)) of (cutoff0, st2) \<Rightarrow>
             paging List CloseDate (AddDate_months cutoff0 (- 4)) [] [] cl st2))"

section \<open>The clients\<close>

subsection \<open>What the three clients share\<close>

text \<open>
  One HTTP exchange as the clients see it: \<^verbatim>\<open>c.Do\<close> fails, or there is a status code and
  a body, which \<^verbatim>\<open>io.ReadAll\<close> may fail to read and the decoder (\<^verbatim>\<open>json.Unmarshal\<close>,
  \<^verbatim>\<open>goquery.NewDocumentFromReader\<close>) may refuse.
\<close>

datatype 'a content = Unreadable | Malformed | Decoded 'a

datatype 'a reply = Unreachable | Answer nat "'a content"

text \<open>The checks every request of the clients goes through, in the source's order.\<close>

definition fetch :: "'a reply \<Rightarrow> error + 'a" where
  "fetch r =
     (case r of
        Unreachable \<Rightarrow> Inl TransportErr
      | Answer code c \<Rightarrow>
          if code \<noteq> 200 then Inl (StatusErr code)
          else (case c of
                  Unreadable \<Rightarrow> Inl ReadBodyErr
                | Malformed \<Rightarrow> Inl UnmarshalErr
                | Decoded v \<Rightarrow> Inr v))"

text \<open>
  \<^verbatim>\<open>strconv.Atoi\<close>: an optional sign and at least one digit, nothing else, and a value that
  fits the 64-bit \<^verbatim>\<open>int\<close>. \<^verbatim>\<open>fmt.Sprint\<close> of an \<^verbatim>\<open>int\<close> is \<open>Itoa\<close>; \<^verbatim>\<open>page++\<close> wraps.
\<close>

definition digits_value :: "string \<Rightarrow> int" where
  "digits_value s = foldl (\<lambda>v c. v * 10 + digit_val c) 0 s"

definition Atoi :: "string \<Rightarrow> int option" where
  "Atoi s =
     (let neg = (s \<noteq> [] \<and> hd s = CHR ''-'');
          ds = (if s \<noteq> [] \<and> (hd s = CHR ''-'' \<or> hd s = CHR ''+'') then tl s else s);
          v = (if neg then - digits_value ds else digits_value ds)
      in if ds = [] \<or> \<not> list_all isDigit ds then None
         else if v < - 9223372036854775808 \<or> 9223372036854775807 < v then None
         else Some v)"

definition Itoa :: "int \<Rightarrow> string" where
  "Itoa x = (if x < 0 then ''-'' else []) @ decimal \<bar>x\<bar>"

definition wrap64 :: "int \<Rightarrow> int" where
  "wrap64 x = (x + 9223372036854775808) mod 18446744073709551616 - 9223372036854775808"

text \<open>\<^verbatim>\<open>strings.Contains\<close>.\<close>

fun Contains :: "string \<Rightarrow> string \<Rightarrow> bool" where
  "Contains [] sub = (sub = [])"
| "Contains (c # cs) sub = (prefix sub (c # cs) \<or> Contains cs sub)"

subsection \<open>The token client\<close>

text \<open>
  The portal answers three requests: the guest login, one page of the listing and the
  detail of one tender. An answer may depend on everything the client has sent before.
  Each request but the login carries the bearer token. \<open>url_String\<close> is Go's
  \<^verbatim>\<open>url.Parse(loc)\<close> followed by \<^verbatim>\<open>String()\<close>, \<open>None\<close> where the parse fails.
\<close>

record tenderData =
  TenderID :: string
  Title :: string
  ProcurementEntity :: string
  PostDate :: string
  ClosingDate :: string

datatype request = Authenticate | ListTenders string int | TenderDetail string string

record portal =
  base_url :: string
  auth_reply :: "request list \<Rightarrow> string reply"
  page_reply :: "request list \<Rightarrow> string \<Rightarrow> int \<Rightarrow> tenderData list reply"
  detail_reply :: "request list \<Rightarrow> string \<Rightarrow> string \<Rightarrow> string list reply"
  url_String :: "string \<Rightarrow> string option"
  sent :: "request list"

record token_client =
  tc_ready :: bool
  tc_token :: string

type_synonym token_state = "token_client \<times> portal"

definition init_token :: "token_state \<Rightarrow> error option \<times> token_state" where
  "init_token s =
     (case s of (f, p) \<Rightarrow>
        if tc_ready f then (None, (f, p))
        else
          (let p1 = p\<lparr>sent := sent p @ [Authenticate]\<rparr>
           in case fetch (auth_reply p (sent p)) of
                Inl e \<Rightarrow> (Some e, (f, p1))
              | Inr jwt \<Rightarrow>
                  if jwt = [] then (Some NoTokenErr, (f, p1))
                  else (None, (f\<lparr>tc_token := jwt, tc_ready := True\<rparr>, p1))))"

definition tenderClosingLocationURL :: "string \<Rightarrow> token_state \<Rightarrow> (error + string) \<times> token_state" where
  "tenderClosingLocationURL tid s =
     (case init_token s of
        (Some e, s1) \<Rightarrow> (Inl e, s1)
      | (None, (f, p)) \<Rightarrow>
          (let p1 = p\<lparr>sent := sent p @ [TenderDetail (tc_token f) tid]\<rparr>
           in case fetch (detail_reply p (sent p) (tc_token f) tid) of
                Inl e \<Rightarrow> (Inl e, (f, p1))
              | Inr locs \<Rightarrow>
                  (case locs of
                     [loc] \<Rightarrow>
                       if loc = [] then (Inr [], (f, p1))
                       else (case url_String p loc of
                               None \<Rightarrow> (Inr [], (f, p1))
                             | Some u \<Rightarrow> (Inr u, (f, p1)))
                   | _ \<Rightarrow> (Inr [], (f, p1)))))"

text \<open>The loop over \<^verbatim>\<open>respBody.TenderDataList\<close>; the first error ends the call.\<close>

fun tenders_of :: "tenderData list \<Rightarrow> tender list \<Rightarrow> token_state \<Rightarrow> (error + tender list) \<times> token_state" where
  "tenders_of [] ts s = (Inr ts, s)"
| "tenders_of (td # tds) ts s =
     (case Parse_date (PostDate td) of
        None \<Rightarrow> (Inl (ParseErr (PostDate td)), s)
      | Some pd \<Rightarrow>
          if length (ClosingDate td) < 10 then (Inl (BadClosingDate (ClosingDate td)), s)
          else
            (case Parse_date (take 10 (ClosingDate td)) of
               None \<Rightarrow> (Inl (ParseErr (take 10 (ClosingDate td))), s)
             | Some cd \<Rightarrow>
                 (case tenderClosingLocationURL (TenderID td) s of
                    (Inl e, s1) \<Rightarrow> (Inl e, s1)
                  | (Inr cURL, s1) \<Rightarrow>
                      (let u = (if cURL = [] \<or> \<not> Contains cURL ''Detail''
                                then base_url (snd s1) @ ''/tenders/'' @ TenderID td else cURL)
                       in tenders_of tds
                            (ts @ [\<lparr>ID = TenderID td, URL = u, Description = Title td,
                                    Agency = ProcurementEntity td, IssuedDate = pd, CloseDate = cd\<rparr>])
                            s1))))"

definition List_token :: "token_state lister" where
  "List_token s token =
     (case init_token s of
        (Some e, s1) \<Rightarrow> (Inl e, s1)
      | (None, (f, p)) \<Rightarrow>
          (case (if token \<noteq> [] then Atoi token else Some 1) of
             None \<Rightarrow> (Inl AtoiErr, (f, p))
           | Some page \<Rightarrow>
               (let p1 = p\<lparr>sent := sent p @ [ListTenders (tc_token f) page]\<rparr>
                in case fetch (page_reply p (sent p) (tc_token f) page) of
                     Inl e \<Rightarrow> (Inl e, (f, p1))
                   | Inr tds \<Rightarrow>
                       (case tenders_of tds [] (f, p1) of
                          (Inl e, s2) \<Rightarrow> (Inl e, s2)
                        | (Inr ts, s2) \<Rightarrow>
                            (Inr (ts, if length ts > 0 then Itoa (wrap64 (page + 1)) else []), s2)))))"

subsection \<open>The form client\<close>

text \<open>
  A page of the site as the client reads it: the hidden inputs of the form, in document
  order (a missing attribute reads as the empty text), and the rows of the result table.
  For each row: whether it carries the class \<^verbatim>\<open>gridfooter\<close>, has a \<^verbatim>\<open>th\<close> cell, carries the
  class \<^verbatim>\<open>ProcPagination\<close>; the text of the link in the second cell and its \<^verbatim>\<open>href\<close>, if
  it has one; the trimmed texts of the agency and of the description; the texts of the
  spans of the fourth cell.
\<close>

record html_row =
  gridfooter :: bool
  has_th :: bool
  pagination :: bool
  link_text :: string
  href :: "string option"
  agency_text :: string
  description_text :: string
  date_spans :: "string list"

record document =
  hidden_inputs :: "(string \<times> string) list"
  table_rows :: "html_row list"

text \<open>\<^verbatim>\<open>url.Values\<close> with \<^verbatim>\<open>Set\<close>: one value for each key.\<close>

type_synonym form_values = "(string \<times> string) list"

fun Set_value :: "string \<Rightarrow> string \<Rightarrow> form_values \<Rightarrow> form_values" where
  "Set_value k v [] = [(k, v)]"
| "Set_value k v ((k', v') # kvs) = (if k' = k then (k, v) # kvs else (k', v') # Set_value k v kvs)"

definition hidden_values :: "document \<Rightarrow> form_values" where
  "hidden_values doc = fold (\<lambda>(n, v) vals. Set_value n v vals) (hidden_inputs doc) []"

text \<open>
  The site answers the first \<^verbatim>\<open>GET\<close> and each \<^verbatim>\<open>POST\<close> of the form, whose fields the
  request carries. \<open>parse_dmy\<close> is \<^verbatim>\<open>time.Parse("02 Jan 2006", s)\<close> and \<open>resolve\<close> is
  \<^verbatim>\<open>f.u.Parse(href)\<close> followed by \<^verbatim>\<open>String()\<close>; \<open>None\<close> is their error.
\<close>

datatype form_request = FormGet | FormPost form_values

record site =
  get_reply :: "form_request list \<Rightarrow> document reply"
  post_reply :: "form_request list \<Rightarrow> form_values \<Rightarrow> document reply"
  parse_dmy :: "string \<Rightarrow> time option"
  resolve :: "string \<Rightarrow> string option"
  site_sent :: "form_request list"

record form_client =
  fc_ready :: bool
  fc_vals :: form_values

type_synonym form_state = "form_client \<times> site"

definition init_form :: "form_state \<Rightarrow> error option \<times> form_state" where
  "init_form s =
     (case s of (f, w) \<Rightarrow>
        (let w1 = w\<lparr>site_sent := site_sent w @ [FormGet]\<rparr>
         in case fetch (get_reply w (site_sent w)) of
              Inl e \<Rightarrow> (Some e, (f, w1))
            | Inr doc \<Rightarrow> (None, (f\<lparr>fc_vals := hidden_values doc\<rparr>, w1))))"

text \<open>
  One row of the table inside \<^verbatim>\<open>Each(c.each(...))\<close>: \<open>Inr None\<close> for a row that is
  skipped, \<open>Inr (Some t)\<close> for a tender.
\<close>

definition row_tender :: "site \<Rightarrow> html_row \<Rightarrow> error + tender option" where
  "row_tender w r =
     (if has_th r then Inr None
      else if pagination r then Inr None
      else
        (case href r of
           None \<Rightarrow> Inl (MissingHref (link_text r))
         | Some h \<Rightarrow>
             (case resolve w h of
                None \<Rightarrow> Inl UrlParseErr
              | Some hurl \<Rightarrow>
                  (case date_spans r of
                     [close_text, issued_text] \<Rightarrow>
                       (case parse_dmy w issued_text of
                          None \<Rightarrow> Inl (ParseErr issued_text)
                        | Some idate \<Rightarrow>
                            (case parse_dmy w close_text of
                               None \<Rightarrow> Inl (ParseErr close_text)
                             | Some cd \<Rightarrow>
                                 Inr (Some \<lparr>ID = link_text r, URL = hurl,
                                            Description = description_text r, Agency = agency_text r,
                                            IssuedDate = idate, CloseDate = cd\<rparr>)))
                   | spans \<Rightarrow> Inl (DateSpansErr (link_text r) (length spans))))))"

text \<open>The rows in order; \<^verbatim>\<open>c.each\<close> keeps the first error and skips every row after it.\<close>

fun rows_tenders :: "site \<Rightarrow> html_row list \<Rightarrow> tender list \<Rightarrow> error + tender list" where
  "rows_tenders w [] ts = Inr ts"
| "rows_tenders w (r # rs) ts =
     (case row_tender w r of
        Inl e \<Rightarrow> Inl e
      | Inr None \<Rightarrow> rows_tenders w rs ts
      | Inr (Some t) \<Rightarrow> rows_tenders w rs (ts @ [t]))"

definition grid :: string where
  "grid = ''ctl00$ctl00$ctl00$ContentPlaceHolderDefault$childContent$u_NSTendersgrid_v2_2$''"

definition pageSize :: nat where
  "pageSize = 100"

text \<open>
  The fields of the request. \<^verbatim>\<open>vals := f.vals\<close> copies a reference to the map, so the
  fields set here are set in the client's own map too, until it is replaced.
\<close>

definition request_values :: "int \<Rightarrow> form_values \<Rightarrow> form_values" where
  "request_values page vals0 =
     (let v1 = Set_value (grid @ ''ddDateRange'') ''0'' vals0;
          v2 = Set_value (grid @ ''tbSearchTenderID'') [] v1;
          v3 = Set_value (grid @ ''tbDescription'') [] v2;
          v4 = Set_value (grid @ ''ddCategoryList'') ''0'' v3;
          v5 = Set_value (grid @ ''ddDeptAgency'') ''Halifax Regional Municipality (HRM)'' v4;
          v6 = Set_value (grid @ ''ddPageSize'') (Itoa (int pageSize)) v5
      in if page > 1
         then Set_value ''__EVENTARGUMENT'' (''Page$'' @ Itoa page)
                (Set_value ''__EVENTTARGET'' (grid @ ''GridView1'') v6)
         else Set_value (grid @ ''btnFilter'') ''Filter'' v6)"

text \<open>\<^verbatim>\<open>List\<close> from the line \<^verbatim>\<open>page := 1\<close> on, for a client that is ready.\<close>

definition list_form_page :: "form_state lister" where
  "list_form_page s token =
     (case s of (f, w) \<Rightarrow>
        (case (if token \<noteq> [] then Atoi token else Some 1) of
           None \<Rightarrow> (Inl AtoiErr, (f, w))
         | Some page \<Rightarrow>
             (let vals = request_values page (fc_vals f);
                  f1 = f\<lparr>fc_vals := vals\<rparr>;
                  w1 = w\<lparr>site_sent := site_sent w @ [FormPost vals]\<rparr>
              in case fetch (post_reply w (site_sent w) vals) of
                   Inl e \<Rightarrow> (Inl e, (f1, w1))
                 | Inr doc \<Rightarrow>
                     (let f2 = f1\<lparr>fc_vals := hidden_values doc\<rparr>
                      in case rows_tenders w1 (filter (\<lambda>r. \<not> gridfooter r) (table_rows doc)) [] of
                           Inl e \<Rightarrow> (Inl e, (f2, w1))
                         | Inr ts \<Rightarrow>
                             (Inr (ts, if length ts \<ge> pageSize then Itoa (wrap64 (page + 1)) else []),
                              (f2, w1))))))"

definition List_form :: "form_state lister" where
  "List_form s token =
     (case s of (f, w) \<Rightarrow>
        if \<not> fc_ready f then
          (if token \<noteq> [] then (Inl FirstTokenErr, (f, w))
           else (case init_form (f, w) of
                   (Some e, s1) \<Rightarrow> (Inl e, s1)
                 | (None, (f1, w1)) \<Rightarrow> list_form_page (f1\<lparr>fc_ready := True\<rparr>, w1) token))
        else list_form_page (f, w) token)"

subsection \<open>The browser client and its capture buffer\<close>

text \<open>
  The buffer \<^verbatim>\<open>c.responses\<close>: the event hook appends a payload at the end, \<^verbatim>\<open>List\<close> takes
  the first one; both hold \<^verbatim>\<open>responsesMu\<close> while they do.
\<close>

definition enqueue :: "'a \<Rightarrow> 'a list \<Rightarrow> 'a list" where
  "enqueue x q = q @ [x]"

definition dequeue :: "'a list \<Rightarrow> error + 'a \<times> 'a list" where
  "dequeue q = (case q of [] \<Rightarrow> Inl NoResponses | r # rest \<Rightarrow> Inr (r, rest))"

text \<open>The fields of one entry of \<^verbatim>\<open>RawTenders.Data\<close> that the client reads.\<close>

record raw_tender =
  raw_Id :: string
  raw_Title :: string
  DateAvailableDisplay :: string
  DateClosingDisplay :: string

type_synonym RawTenders = "raw_tender list"

text \<open>
  The browser, driven through Playwright. Each action may fail, depending on what was done
  before. \<open>arrivals\<close> are the payloads the event hook has appended to the buffer since the
  client last held the lock; \<open>next_enabled\<close> is what \<^verbatim>\<open>IsEnabled\<close> reports. \<open>parse_display\<close>
  is \<^verbatim>\<open>time.Parse("Mon Jan 2, 2006 3:04:05 PM", s)\<close>; \<open>tidy\<close> is the trimming and squeezing
  of the description; \<open>detail_url\<close> resolves the path of a tender's page against the base.
\<close>

datatype action =
    Install | Run | Launch | NewContext | NewPage | Goto | ClickFilters | ClickAll
  | ClickNext | WaitTable | IsEnabled

record browser =
  succeeds :: "action list \<Rightarrow> action \<Rightarrow> bool"
  arrivals :: "action list \<Rightarrow> RawTenders list"
  next_enabled :: "action list \<Rightarrow> bool"
  parse_display :: "string \<Rightarrow> time option"
  tidy :: "string \<Rightarrow> string"
  detail_url :: "string \<Rightarrow> string"
  clock :: "nat \<Rightarrow> time"
  clock_reads :: nat
  done_actions :: "action list"

record browser_client =
  bc_ready :: bool
  responses :: "RawTenders list"

type_synonym browser_state = "browser_client \<times> browser"

text \<open>One action: whether it succeeded, and the browser with the action on record.\<close>

definition act :: "action \<Rightarrow> browser \<Rightarrow> bool \<times> browser" where
  "act a b = (succeeds b (done_actions b) a, b\<lparr>done_actions := done_actions b @ [a]\<rparr>)"

text \<open>The steps of \<^verbatim>\<open>init\<close> in order, up to the first that fails.\<close>

fun bootstrap :: "(action \<times> string) list \<Rightarrow> browser \<Rightarrow> error option \<times> browser" where
  "bootstrap [] b = (None, b)"
| "bootstrap ((a, msg) # steps) b =
     (case act a b of
        (False, b1) \<Rightarrow> (Some (PlaywrightErr msg), b1)
      | (True, b1) \<Rightarrow> bootstrap steps b1)"

definition init_steps :: "(action \<times> string) list" where
  "init_steps =
     [(Install, ''installing playwright''), (Run, ''running playwright''),
      (Launch, ''launching browser''), (NewContext, ''creating context''),
      (NewPage, ''creating page''), (Goto, ''going to page''),
      (ClickFilters, ''clicking open toggle filters''), (ClickAll, ''clicking all'')]"

definition init_browser :: "browser_state \<Rightarrow> error option \<times> browser_state" where
  "init_browser s =
     (case s of (c, b) \<Rightarrow>
        if bc_ready c then (None, (c, b))
        else (case bootstrap init_steps b of
                (Some e, b1) \<Rightarrow> (Some e, (c, b1))
              | (None, b1) \<Rightarrow> (None, (c\<lparr>bc_ready := True\<rparr>, b1))))"

text \<open>\<^verbatim>\<open>strings.Cut(s, " ")\<close>: the text before and after the first space, if there is one.\<close>

fun Cut :: "string \<Rightarrow> (string \<times> string) option" where
  "Cut [] = None"
| "Cut (c # cs) =
     (if c = CHR '' '' then Some ([], cs)
      else (case Cut cs of None \<Rightarrow> None | Some (before, after) \<Rightarrow> Some (c # before, after)))"

definition Now :: "browser \<Rightarrow> time \<times> browser" where
  "Now b = (clock b (clock_reads b), b\<lparr>clock_reads := Suc (clock_reads b)\<rparr>)"

text \<open>
  The loop over \<^verbatim>\<open>r.Data\<close>. A date of the year 9999 is the source's way of saying "none";
  the client puts the present time in its place.
\<close>

fun raw_tenders :: "raw_tender list \<Rightarrow> tender list \<Rightarrow> browser \<Rightarrow> (error + tender list) \<times> browser" where
  "raw_tenders [] ts b = (Inr ts, b)"
| "raw_tenders (d # ds) ts b =
     (case Cut (raw_Title d) of
        None \<Rightarrow> (Inl (CutTitleErr (raw_Title d)), b)
      | Some (tid, rest) \<Rightarrow>
          (case parse_display b (DateAvailableDisplay d) of
             None \<Rightarrow> (Inl (ParseErr (DateAvailableDisplay d)), b)
           | Some issued \<Rightarrow>
               (case parse_display b (DateClosingDisplay d) of
                  None \<Rightarrow> (Inl (ParseErr (DateClosingDisplay d)), b)
                | Some closing \<Rightarrow>
                    (case Now b of (now, b1) \<Rightarrow>
                       raw_tenders ds
                         (ts @ [\<lparr>ID = tid, URL = detail_url b (raw_Id d), Description = tidy b rest,
                                 Agency = ''Halifax Regional Municipality'',
                                 IssuedDate = (if year issued = 9999 then now else issued),
                                 CloseDate = (if year closing = 9999 then now else closing)\<rparr>])
                         b1))))"

definition List_browser :: "browser_state lister" where
  "List_browser s token =
     (case init_browser s of
        (Some e, s1) \<Rightarrow> (Inl e, s1)
      | (None, (c, b)) \<Rightarrow>
          (case (if token \<noteq> [] then act ClickNext b else (True, b)) of
             (False, b1) \<Rightarrow> (Inl (PlaywrightErr ''clicking next''), (c, b1))
           | (True, b1) \<Rightarrow>
               (case act WaitTable b1 of
                  (False, b2) \<Rightarrow> (Inl (PlaywrightErr ''waiting for table''), (c, b2))
                | (True, b2) \<Rightarrow>
                    (case dequeue (responses c @ arrivals b2 (done_actions b2)) of
                       Inl e \<Rightarrow> (Inl e, (c\<lparr>responses := []\<rparr>, b2))
                     | Inr (r, rest) \<Rightarrow>
                         (let c1 = c\<lparr>responses := rest\<rparr>
                          in case raw_tenders r [] b2 of
                               (Inl e, b3) \<Rightarrow> (Inl e, (c1, b3))
                             | (Inr ts, b3) \<Rightarrow>
                                 (case act IsEnabled b3 of
                                    (False, b4) \<Rightarrow>
                                      (Inl (PlaywrightErr ''checking next enabled''), (c1, b4))
                                  | (True, b4) \<Rightarrow>
                                      (Inr (ts, if next_enabled b4 (done_actions b4) then ''next'' else []),
                                       (c1, b4))))))))"

section \<open>The capture buffer under interleaving\<close>

text \<open>
  The goroutines of the event hook and the calls of \<open>List\<close> run side by side. Each is a
  thread that moves in steps. A hook goroutine with a payload: it locks \<^verbatim>\<open>responsesMu\<close>,
  reads \<^verbatim>\<open>c.responses\<close>, writes back the slice with its payload appended, unlocks. A call
  of \<open>List\<close>: it locks, reads the buffer (and finds it empty, or finds its first payload and
  the rest), writes back the rest, and unlocks when it returns. A thread that wants the
  lock while another holds it does not move.
\<close>

datatype 'a thread =
    Hook 'a
  | HookLocked 'a
  | HookRead 'a "'a list"
  | HookWritten
  | HookDone
  | Lister
  | ListerLocked
  | ListerRead 'a "'a list"
  | ListerReturning "error + 'a"
  | ListerDone "error + 'a"

text \<open>
  The buffer, the thread that holds the lock, the threads, and for the record the payloads
  appended and the payloads taken so far, each in the order in which it happened.
\<close>

record 'a shared =
  buffer :: "'a list"
  holder :: "nat option"
  threads :: "'a thread list"
  appended :: "'a list"
  taken :: "'a list"

text \<open>Thread \<open>i\<close> takes its next step, if it can.\<close>

definition step :: "nat \<Rightarrow> 'a shared \<Rightarrow> 'a shared" where
  "step i s =
     (if length (threads s) \<le> i then s
      else
        (case threads s ! i of
           Hook x \<Rightarrow>
             if holder s = None
             then s\<lparr>holder := Some i, threads := (threads s)[i := HookLocked x]\<rparr> else s
         | HookLocked x \<Rightarrow> s\<lparr>threads := (threads s)[i := HookRead x (buffer s)]\<rparr>
         | HookRead x q \<Rightarrow>
             s\<lparr>buffer := enqueue x q, appended := appended s @ [x],
               threads := (threads s)[i := HookWritten]\<rparr>
         | HookWritten \<Rightarrow> s\<lparr>holder := None, threads := (threads s)[i := HookDone]\<rparr>
         | HookDone \<Rightarrow> s
         | Lister \<Rightarrow>
             if holder s = None
             then s\<lparr>holder := Some i, threads := (threads s)[i := ListerLocked]\<rparr> else s
         | ListerLocked \<Rightarrow>
             (case dequeue (buffer s) of
                Inl e \<Rightarrow> s\<lparr>threads := (threads s)[i := ListerReturning (Inl e)]\<rparr>
              | Inr (r, rest) \<Rightarrow> s\<lparr>threads := (threads s)[i := ListerRead r rest]\<rparr>)
         | ListerRead r rest \<Rightarrow>
             s\<lparr>buffer := rest, taken := taken s @ [r],
               threads := (threads s)[i := ListerReturning (Inr r)]\<rparr>
         | ListerReturning res \<Rightarrow> s\<lparr>holder := None, threads := (threads s)[i := ListerDone res]\<rparr>
         | ListerDone res \<Rightarrow> s))"

text \<open>A schedule names the thread that is given each step; every interleaving is a schedule.\<close>

definition run :: "nat list \<Rightarrow> 'a shared \<Rightarrow> 'a shared" where
  "run schedule s = fold step schedule s"

text \<open>Where the threads start: none holds the lock, none has begun.\<close>

definition outside :: "'a thread \<Rightarrow> bool" where
  "outside t = (case t of Hook x \<Rightarrow> True | HookDone \<Rightarrow> True | Lister \<Rightarrow> True
                | ListerDone res \<Rightarrow> True | _ \<Rightarrow> False)"

definition initially :: "'a list \<Rightarrow> 'a thread list \<Rightarrow> 'a shared" where
  "initially q ts = \<lparr>buffer = q, holder = None, threads = ts, appended = [], taken = []\<rparr>"

text \<open>
  What holds at every moment: only the holder of the lock is between its lock and its
  unlock, what it has read is what the buffer holds, and the payloads taken followed by the
  payloads waiting are the payloads the buffer has ever held, in order. Between the read and
  the write of a thread the buffer and the record differ by that thread's own payload.
\<close>

definition coherent :: "'a list \<Rightarrow> 'a shared \<Rightarrow> bool" where
  "coherent q0 s =
     ((\<forall>j < length (threads s). holder s \<noteq> Some j \<longrightarrow> outside (threads s ! j))
      \<and> (case holder s of
            None \<Rightarrow> q0 @ appended s = taken s @ buffer s
          | Some i \<Rightarrow>
              i < length (threads s)
              \<and> (case threads s ! i of
                    HookLocked x \<Rightarrow> q0 @ appended s = taken s @ buffer s
                  | HookRead x q \<Rightarrow> q = buffer s \<and> q0 @ appended s = taken s @ buffer s
                  | HookWritten \<Rightarrow> q0 @ appended s = taken s @ buffer s
                  | ListerLocked \<Rightarrow> q0 @ appended s = taken s @ buffer s
                  | ListerRead r rest \<Rightarrow> buffer s = r # rest \<and> q0 @ appended s = taken s @ buffer s
                  | ListerReturning res \<Rightarrow> q0 @ appended s = taken s @ buffer s
                  | _ \<Rightarrow> False)))"

section \<open>Describing a run\<close>

text \<open>The ids of the table, in insertion order.\<close>

definition ids :: "world \<Rightarrow> string list" where
  "ids w = map col_id (tenders w)"

text \<open>The next \<open>n\<close> database statements succeed.\<close>

definition calm :: "nat \<Rightarrow> world \<Rightarrow> bool" where
  "calm n w = (\<forall>f \<in> set (take n (faults w)). f = NoFault)"

text \<open>The store after \<open>add\<close> has been called for each record of a list, in order.\<close>

definition add_all :: "tender list \<Rightarrow> world \<Rightarrow> world" where
  "add_all ts w = fold (\<lambda>t st. snd (add t st)) ts w"

text \<open>
  The records of a listing that are new to a table with the ids \<open>seen\<close>: those whose id
  is neither in the table nor carried by an earlier record of the listing.
\<close>

fun fresh :: "string list \<Rightarrow> tender list \<Rightarrow> tender list" where
  "fresh seen [] = []"
| "fresh seen (t # ts) =
     (if ID t \<in> set seen then fresh seen ts else t # fresh (seen @ [ID t]) ts)"

text \<open>
  Calling \<open>List\<close> with \<open>token\<close> and then with each returned cursor yields the pages
  \<open>ps\<close>, one call per page, and leaves the client in the state returned.
\<close>

fun follow :: "'c lister \<Rightarrow> 'c \<Rightarrow> string \<Rightarrow> (tender list \<times> string) list \<Rightarrow> 'c option" where
  "follow List cl token [] = Some cl"
| "follow List cl token (p # ps) =
     (case List cl token of
        (Inl e, cl1) \<Rightarrow> None
      | (Inr q, cl1) \<Rightarrow> if q = p then follow List cl1 (snd p) ps else None)"

text \<open>
  The dates that \<^verbatim>\<open>time.Parse\<close> can give and the layout \<^verbatim>\<open>2006-01-02\<close> can hold: a
  real day in a year of four digits. \<open>date_of\<close> is the day without its time of day, and
  \<open>later\<close> the later of two times.
\<close>

definition four_digit_date :: "time \<Rightarrow> bool" where
  "four_digit_date t = (valid_time t \<and> 0 \<le> year t \<and> year t \<le> 9999)"

definition date_of :: "time \<Rightarrow> time" where
  "date_of t = t\<lparr>nsec := 0\<rparr>"

definition later :: "time \<Rightarrow> time \<Rightarrow> time" where
  "later a b = (if Before a b then b else a)"

text \<open>The latest time of a list; the zero time for the empty list.\<close>

definition latest :: "time list \<Rightarrow> time" where
  "latest ds = (case ds of [] \<Rightarrow> zero_time | d # ds' \<Rightarrow> fold (\<lambda>x acc. later acc x) ds' d)"

text \<open>The client's state after calling \<open>List\<close> with each cursor of a list in turn.\<close>

definition calls :: "'c lister \<Rightarrow> 'c \<Rightarrow> string list \<Rightarrow> 'c" where
  "calls List cl tokens = fold (\<lambda>token c. snd (List c token)) tokens cl"

text \<open>
  How often each client has set out to establish its session: the logins sent to the
  portal, the first \<^verbatim>\<open>GET\<close>s sent to the site, the installations of the browser.
\<close>

definition logins :: "token_state \<Rightarrow> nat" where
  "logins s = count_list (sent (snd s)) Authenticate"

definition first_gets :: "form_state \<Rightarrow> nat" where
  "first_gets s = count_list (site_sent (snd s)) FormGet"

definition bootstraps :: "browser_state \<Rightarrow> nat" where
  "bootstraps s = count_list (done_actions (snd s)) Install"

text \<open>
  The browser at the moment \<open>List\<close> takes the lock of the buffer (after \<^verbatim>\<open>init\<close>, the click
  on "next page" when there is a cursor, and the wait for the table), and the buffer as it
  is then.
\<close>

definition at_lock :: "browser_state \<Rightarrow> string \<Rightarrow> browser" where
  "at_lock s token =
     (let b = snd (snd (init_browser s));
          b1 = (if token \<noteq> [] then snd (act ClickNext b) else b)
      in snd (act WaitTable b1))"

definition buffered :: "browser_state \<Rightarrow> string \<Rightarrow> RawTenders list" where
  "buffered s token =
     responses (fst (snd (init_browser s))) @ arrivals (at_lock s token) (done_actions (at_lock s token))"

section \<open>Concrete records and stores\<close>

definition day_at :: "int \<Rightarrow> int \<Rightarrow> int \<Rightarrow> time" where
  "day_at y m d = \<lparr>year = y, month = m, day = d, nsec = 0\<rparr>"

definition T1 :: tender where
  "T1 = \<lparr>ID = ''T1'', URL = ''https://example.org/tenders/T1'', Description = ''Paving'',
         Agency = ''HRM'', IssuedDate = day_at 2024 1 10, CloseDate = day_at 2024 2 1\<rparr>"

definition T1_again :: tender where
  "T1_again = \<lparr>ID = ''T1'', URL = ''https://example.org/other'', Description = ''Paving, revised'',
         Agency = ''Halifax Water'', IssuedDate = day_at 2024 1 12, CloseDate = day_at 2024 3 1\<rparr>"

definition T2 :: tender where
  "T2 = \<lparr>ID = ''T2'', URL = ''https://example.org/tenders/T2'', Description = ''Snow clearing'',
         Agency = ''HRM'', IssuedDate = day_at 2024 1 5, CloseDate = day_at 2024 2 5\<rparr>"

text \<open>An empty table behind a working database, on June 15, 2024.\<close>

definition empty_store :: world where
  "empty_store = \<lparr>tenders = [], faults = [], now_at = (\<lambda>n. day_at 2024 6 15), ticks = 0\<rparr>"

text \<open>The same store once T1 has been recorded.\<close>

definition store_T1 :: world where
  "store_T1 = empty_store\<lparr>tenders := [row_of T1 (day_at 2024 6 14)]\<rparr>"

text \<open>
  A client for trying the driver: it hands out prepared answers, one for each call of
  \<open>List\<close>, whatever the cursor; its state is the answers still to come.
\<close>

definition script_List :: "(error + tender list \<times> string) list lister" where
  "script_List answers token =
     (case answers of [] \<Rightarrow> (Inl NoResponses, []) | a # rest \<Rightarrow> (a, rest))"

definition notice :: "string \<Rightarrow> time \<Rightarrow> time \<Rightarrow> tender" where
  "notice i issued closing =
     \<lparr>ID = i, URL = ''https://example.org/'' @ i, Description = ''Notice '' @ i, Agency = ''HRM'',
      IssuedDate = issued, CloseDate = closing\<rparr>"

text \<open>Six notices, newest first, on three pages.\<close>

definition N1 :: tender where "N1 = notice ''N1'' (day_at 2024 3 10) (day_at 2024 4 10)"
definition N2 :: tender where "N2 = notice ''N2'' (day_at 2024 3 5) (day_at 2024 4 5)"
definition N3 :: tender where "N3 = notice ''N3'' (day_at 2024 2 20) (day_at 2024 3 20)"
definition N4 :: tender where "N4 = notice ''N4'' (day_at 2024 1 15) (day_at 2024 2 15)"
definition N5 :: tender where "N5 = notice ''N5'' (day_at 2024 1 10) (day_at 2024 2 10)"
definition N6 :: tender where "N6 = notice ''N6'' (day_at 2023 12 1) (day_at 2024 1 5)"

definition three_pages :: "(error + tender list \<times> string) list" where
  "three_pages = [Inr ([N1, N2], ''2''), Inr ([N3, N4, N5], ''3''), Inr ([N6], [])]"

text \<open>A notice dated in the year 0, and a table whose only row is dated January 1 of the year 1.\<close>

definition Y0 :: tender where "Y0 = notice ''Y0'' (day_at 0 12 15) (day_at 2024 4 10)"

definition Y1 :: tender where "Y1 = notice ''Y1'' (day_at 1 1 1) (day_at 2024 4 10)"

definition store_Y1 :: world where
  "store_Y1 = empty_store\<lparr>tenders := [row_of Y1 (day_at 2024 6 14)]\<rparr>"

text \<open>A listing whose second call fails, and a database whose third statement fails.\<close>

definition broken_listing :: "(error + tender list \<times> string) list" where
  "broken_listing = [Inr ([N1, N2], ''2''), Inl TransportErr]"

definition failing_store :: world where
  "failing_store = empty_store\<lparr>faults := [NoFault, NoFault, StmtFault]\<rparr>"

definition offline_store :: world where
  "offline_store = empty_store\<lparr>faults := [StmtFault]\<rparr>"

text \<open>
  A portal with a single tender: the first page of its listing holds T1, every other page
  is empty, and the tender has no closing location.
\<close>

definition td1 :: tenderData where
  "td1 = \<lparr>TenderID = ''T1'', Title = ''Paving'', ProcurementEntity = ''HRM'',
          PostDate = ''2024-01-10'', ClosingDate = ''2024-02-01T14:00:00''\<rparr>"

definition small_portal :: portal where
  "small_portal =
     \<lparr>base_url = ''https://example.org'',
      auth_reply = (\<lambda>h. Answer 200 (Decoded ''jwt'')),
      page_reply = (\<lambda>h tok p. Answer 200 (Decoded (if p = 1 then [td1] else []))),
      detail_reply = (\<lambda>h tok i. Answer 200 (Decoded [])),
      url_String = Some,
      sent = []\<rparr>"

definition new_token_client :: token_client where
  "new_token_client = \<lparr>tc_ready = False, tc_token = []\<rparr>"

text \<open>The same portal, whose login fails the first time it is asked, and one that cannot be reached.\<close>

definition flaky_portal :: portal where
  "flaky_portal =
     small_portal\<lparr>auth_reply := (\<lambda>h. if h = [] then Answer 503 Unreadable else Answer 200 (Decoded ''jwt''))\<rparr>"

definition dead_portal :: portal where
  "dead_portal = small_portal\<lparr>auth_reply := (\<lambda>h. Unreachable)\<rparr>"

text \<open>A site whose result table has a header row and one tender, T2.\<close>

definition header_row :: html_row where
  "header_row =
     \<lparr>gridfooter = False, has_th = True, pagination = False, link_text = [], href = None,
      agency_text = [], description_text = [], date_spans = []\<rparr>"

definition row_T2 :: html_row where
  "row_T2 =
     \<lparr>gridfooter = False, has_th = False, pagination = False, link_text = ''T2'',
      href = Some ''/tenders/T2'', agency_text = ''HRM'', description_text = ''Snow clearing'',
      date_spans = [''05 Feb 2024'', ''05 Jan 2024'']\<rparr>"

definition small_site :: site where
  "small_site =
     \<lparr>get_reply = (\<lambda>h. Answer 200 (Decoded \<lparr>hidden_inputs = [(''__VIEWSTATE'', ''a'')], table_rows = []\<rparr>)),
      post_reply = (\<lambda>h v. Answer 200
         (Decoded \<lparr>hidden_inputs = [(''__VIEWSTATE'', ''b'')], table_rows = [header_row, row_T2]\<rparr>)),
      parse_dmy = (\<lambda>s. if s = ''05 Jan 2024'' then Some (day_at 2024 1 5)
                         else if s = ''05 Feb 2024'' then Some (day_at 2024 2 5) else None),
      resolve = (\<lambda>h. Some (''https://example.org'' @ h)),
      site_sent = []\<rparr>"

definition dead_site :: site where
  "dead_site = small_site\<lparr>get_reply := (\<lambda>h. Unreachable)\<rparr>"

definition new_form_client :: form_client where
  "new_form_client = \<lparr>fc_ready = False, fc_vals = []\<rparr>"

text \<open>
  A browser in which every action succeeds, on June 15, 2024. The first load of the table
  delivers one payload with one tender, which has no closing date: the source shows the
  year 9999. There is no next page. B1 is the record the client makes of it.
\<close>

definition raw1 :: raw_tender where
  "raw1 =
     \<lparr>raw_Id = ''88f8'', raw_Title = ''B1 Paving'',
      DateAvailableDisplay = ''Wed Jan 10, 2024 12:00:00 AM'',
      DateClosingDisplay = ''Fri Dec 31, 9999 12:00:00 AM''\<rparr>"

definition small_browser :: browser where
  "small_browser =
     \<lparr>succeeds = (\<lambda>h a. True),
      arrivals = (\<lambda>h. if length h = 9 then [[raw1]] else []),
      next_enabled = (\<lambda>h. False),
      parse_display = (\<lambda>s. if s = ''Wed Jan 10, 2024 12:00:00 AM'' then Some (day_at 2024 1 10)
                             else if s = ''Fri Dec 31, 9999 12:00:00 AM'' then Some (day_at 9999 12 31)
                             else None),
      tidy = (\<lambda>s. s),
      detail_url = (\<lambda>i. ''https://example.org/Detail/'' @ i),
      clock = (\<lambda>n. day_at 2024 6 15),
      clock_reads = 0,
      done_actions = []\<rparr>"

definition stuck_browser :: browser where
  "stuck_browser = small_browser\<lparr>succeeds := (\<lambda>h a. a \<noteq> Launch)\<rparr>"

definition new_browser_client :: browser_client where
  "new_browser_client = \<lparr>bc_ready = False, responses = []\<rparr>"

definition B1 :: tender where
  "B1 = \<lparr>ID = ''B1'', URL = ''https://example.org/Detail/88f8'', Description = ''Paving'',
         Agency = ''Halifax Regional Municipality'', IssuedDate = day_at 2024 1 10,
         CloseDate = day_at 2024 6 15\<rparr>"

section \<open>The store: inserting\<close>

lemma col_id_row_of [simp]: "col_id (row_of t now) = ID t"
  by (simp add: row_of_def)

lemma add_working:
  "faults w = [] \<Longrightarrow>
   add t w =
     (Inr (ID t \<notin> set (map col_id (tenders w))),
      (if ID t \<in> set (map col_id (tenders w)) then w\<lparr>ticks := Suc (ticks w)\<rparr>
       else w\<lparr>ticks := Suc (ticks w), tenders := tenders w @ [row_of t (now_at w (ticks w))]\<rparr>))"
  by (simp add: add_def Exec_insert_def next_fault_def time_Now_def)

lemma add_existing_id:
  "faults w = [] \<Longrightarrow> ID t \<in> set (map col_id (tenders w)) \<Longrightarrow>
   fst (add t w) = Inr False \<and> tenders (snd (add t w)) = tenders w"
  by (simp add: add_working)

text \<open>
  C1, as the claim states it, fails where the id is already in the table: the first of the
  two calls inserts nothing and answers false.
\<close>

theorem add_twice_known_id_counterexample:
  "fst (add T1 store_T1) = Inr False \<and> tenders (snd (add T1 store_T1)) = tenders store_T1"
  by (simp add: add_working store_T1_def empty_store_def T1_def)

text \<open>
  C1 (amended): over a working database, and for an id the table does not hold yet, two
  calls of \<open>add\<close> with that id, whatever the other fields of the second record, insert
  exactly one row, the first record's; the first call answers true, the second answers false
  and is no error, and it leaves the table as it was.
\<close>

theorem add_twice_fresh_id:
  assumes "faults w = []" and "ID t' = ID t" and "ID t \<notin> set (map col_id (tenders w))"
  shows "fst (add t w) = Inr True
       \<and> tenders (snd (add t w)) = tenders w @ [row_of t (now_at w (ticks w))]
       \<and> fst (add t' (snd (add t w))) = Inr False
       \<and> tenders (snd (add t' (snd (add t w)))) = tenders (snd (add t w))"
  using assms by (simp add: add_working)

theorem add_twice_fresh_id_witness:
  "fst (add T1 empty_store) = Inr True
   \<and> fst (add T1_again (snd (add T1 empty_store))) = Inr False
   \<and> tenders (snd (add T1_again (snd (add T1 empty_store)))) = [row_of T1 (day_at 2024 6 15)]"
  using add_twice_fresh_id [of empty_store T1_again T1]
  by (simp add: empty_store_def T1_def T1_again_def)

section \<open>The store: the watermark\<close>

text \<open>
  C3 at a failing input: T1 is recorded on June 15, 2024, so the greatest first-observed
  time of the table is that day; \<open>maxObserved\<close> answers the zero time, because the column
  holds a date with a time of day and the text is parsed with the layout of a bare date.
\<close>

theorem maxObserved_after_add_is_zero:
  "map col_first_observed (tenders (snd (add T1 empty_store))) = [''2024-06-15 00:00:00+00:00'']
   \<and> fst (maxObserved (snd (add T1 empty_store))) = Inr zero_time"
  by code_simp

section \<open>The driver: one page after another\<close>

lemma calm_working: "faults w = [] \<Longrightarrow> calm n w"
  by (simp add: calm_def)

lemma calm_less: "calm n w \<Longrightarrow> m \<le> n \<Longrightarrow> calm m w"
  unfolding calm_def using set_take_subset_set_take [of m n "faults w"] by blast

lemma calm_Suc: "calm (Suc n) w \<Longrightarrow> faults w = [] \<or> (\<exists>fs. faults w = NoFault # fs)"
  by (cases "faults w") (auto simp: calm_def)

lemma add_faults: "faults (snd (add t w)) = drop 1 (faults w)"
  by (auto simp add: add_def Exec_insert_def next_fault_def time_Now_def Let_def
      split: prod.splits sum.splits list.splits)

lemma add_calm_fst: "calm (Suc n) w \<Longrightarrow> fst (add t w) = Inr (ID t \<notin> set (ids w))"
  by (drule calm_Suc)
     (auto simp add: add_def Exec_insert_def next_fault_def time_Now_def ids_def)

lemma add_calm_rows:
  "calm (Suc n) w \<Longrightarrow>
   tenders (snd (add t w))
     = (if ID t \<in> set (ids w) then tenders w
        else tenders w @ [row_of t (now_at w (ticks w))])"
  by (drule calm_Suc)
     (auto simp add: add_def Exec_insert_def next_fault_def time_Now_def ids_def)

lemma add_calm_ids:
  "calm (Suc n) w \<Longrightarrow> ids (snd (add t w)) = (if ID t \<in> set (ids w) then ids w else ids w @ [ID t])"
  by (simp add: ids_def add_calm_rows [unfolded ids_def])

lemma add_calm_next: "calm (Suc n) w \<Longrightarrow> calm n (snd (add t w))"
  by (cases "faults w") (auto simp: calm_def add_faults drop_Suc)

lemma add_all_Nil [simp]: "add_all [] w = w"
  by (simp add: add_all_def)

lemma add_all_Cons [simp]: "add_all (t # ts) w = add_all ts (snd (add t w))"
  by (simp add: add_all_def)

lemma add_all_append: "add_all (xs @ ys) w = add_all ys (add_all xs w)"
  by (simp add: add_all_def)

lemma add_all_faults: "faults (add_all ts w) = drop (length ts) (faults w)"
  by (induction ts arbitrary: w) (simp_all add: add_faults)

lemma calm_add_all: "calm (length ts + n) w \<Longrightarrow> calm n (add_all ts w)"
  by (induction ts arbitrary: w) (simp_all add: add_calm_next)

lemma fresh_append: "fresh seen (xs @ ys) = fresh seen xs @ fresh (seen @ map ID (fresh seen xs)) ys"
  by (induction xs arbitrary: seen) simp_all

lemma add_all_ids: "calm (length ts) w \<Longrightarrow> ids (add_all ts w) = ids w @ map ID (fresh (ids w) ts)"
  by (induction ts arbitrary: w) (simp_all add: add_calm_ids add_calm_next)

lemma add_calm_result:
  assumes "calm (Suc n) st"
  obtains st1 where "add t st = (Inr (ID t \<notin> set (ids st)), st1)"
    and "calm n st1"
    and "ids st1 = (if ID t \<in> set (ids st) then ids st else ids st @ [ID t])"
  using add_calm_fst [OF assms, of t] add_calm_next [OF assms, of t] add_calm_ids [OF assms, of t]
  by (cases "add t st") simp

lemma range_page_no_trigger:
  "calm (length ct) st \<Longrightarrow> \<forall>u \<in> set ct. \<not> Before (rel u) start \<Longrightarrow>
   range_page rel start ct nt st = (PageDone (nt @ fresh (ids st) ct), add_all ct st)"
proof (induction ct arbitrary: nt st)
  case Nil
  then show ?case by simp
next
  case (Cons t ct)
  from Cons.prems(1) have "calm (Suc (length ct)) st" by simp
  then obtain st1 where a: "add t st = (Inr (ID t \<notin> set (ids st)), st1)"
    and f: "calm (length ct) st1"
    and i: "ids st1 = (if ID t \<in> set (ids st) then ids st else ids st @ [ID t])"
    by (rule add_calm_result)
  from Cons.prems(2) have n: "\<not> Before (rel t) start" and r: "\<forall>u \<in> set ct. \<not> Before (rel u) start"
    by simp_all
  show ?case
    using a n i Cons.IH [OF f r] by simp
qed

lemma range_page_trigger:
  "calm (Suc (length pre)) st \<Longrightarrow> \<forall>u \<in> set pre. \<not> Before (rel u) start \<Longrightarrow> Before (rel t) start \<Longrightarrow>
   range_page rel start (pre @ t # post) nt st
     = (BreakOuter (nt @ fresh (ids st) (pre @ [t])), add_all (pre @ [t]) st)"
proof (induction pre arbitrary: nt st)
  case Nil
  from Nil.prems(1) obtain st1 where a: "add t st = (Inr (ID t \<notin> set (ids st)), st1)"
    by (rule add_calm_result)
  show ?case using a Nil.prems(3) by simp
next
  case (Cons p pre)
  from Cons.prems(1) have "calm (Suc (Suc (length pre))) st" by simp
  then obtain st1 where a: "add p st = (Inr (ID p \<notin> set (ids st)), st1)"
    and f: "calm (Suc (length pre)) st1"
    and i: "ids st1 = (if ID p \<in> set (ids st) then ids st else ids st @ [ID p])"
    by (rule add_calm_result)
  from Cons.prems(2) have n: "\<not> Before (rel p) start" and r: "\<forall>u \<in> set pre. \<not> Before (rel u) start"
    by simp_all
  show ?case
    using a n i Cons.IH [OF f r Cons.prems(3)] by simp
qed

lemma paging_List_error:
  "List cl token = (Inl e, cl1) \<Longrightarrow> paging List rel start token nt cl st = Some (Inl e, cl1, st)"
  by (subst paging.simps) simp

lemma paging_add_error:
  "List cl token = (Inr (ct, next), cl1) \<Longrightarrow> range_page rel start ct nt st = (Failed e, st1) \<Longrightarrow>
   paging List rel start token nt cl st = Some (Inl e, cl1, st1)"
  by (subst paging.simps) simp

lemma paging_last_page:
  "calm (length ct) st \<Longrightarrow> List cl token = (Inr (ct, []), cl1) \<Longrightarrow>
   \<forall>u \<in> set ct. \<not> Before (rel u) start \<Longrightarrow>
   paging List rel start token nt cl st = Some (Inr (nt @ fresh (ids st) ct), cl1, add_all ct st)"
  by (subst paging.simps) (simp add: range_page_no_trigger)

lemma paging_next_page:
  "calm (length ct) st \<Longrightarrow> List cl token = (Inr (ct, next), cl1) \<Longrightarrow> next \<noteq> [] \<Longrightarrow>
   \<forall>u \<in> set ct. \<not> Before (rel u) start \<Longrightarrow>
   paging List rel start token nt cl st
     = paging List rel start next (nt @ fresh (ids st) ct) cl1 (add_all ct st)"
  by (subst paging.simps) (simp add: range_page_no_trigger)

lemma paging_trigger:
  "calm (Suc (length pre)) st \<Longrightarrow> List cl token = (Inr (pre @ t # post, next), cl1) \<Longrightarrow>
   \<forall>u \<in> set pre. \<not> Before (rel u) start \<Longrightarrow> Before (rel t) start \<Longrightarrow>
   paging List rel start token nt cl st
     = Some (Inr (nt @ fresh (ids st) (pre @ [t])), cl1, add_all (pre @ [t]) st)"
  by (subst paging.simps) (simp add: range_page_trigger)

lemma follow_Cons_elim:
  assumes "follow List cl token ((ct, next) # ps) = Some cl'"
  obtains cl1 where "List cl token = (Inr (ct, next), cl1)" and "follow List cl1 next ps = Some cl'"
  using assms by (auto split: prod.splits sum.splits if_splits)

lemma add_keeps_rows: "prefix (tenders w) (tenders (snd (add t w)))"
  by (auto simp add: add_def Exec_insert_def next_fault_def time_Now_def
      split: prod.splits sum.splits list.splits)

lemma range_page_keeps_rows:
  "range_page rel start ct nt st = (fl, st') \<Longrightarrow> prefix (tenders st) (tenders st')"
proof (induction ct arbitrary: nt st)
  case Nil
  then show ?case by simp
next
  case (Cons t ct)
  have a: "prefix (tenders st) (tenders (snd (add t st)))"
    by (rule add_keeps_rows)
  show ?case
  proof (cases "add t st")
    case (Pair r st1)
    with a have p: "prefix (tenders st) (tenders st1)" by simp
    show ?thesis
    proof (cases r)
      case (Inl e)
      with Pair Cons.prems p show ?thesis by simp
    next
      case (Inr isNew)
      show ?thesis
      proof (cases "Before (rel t) start")
        case True
        with Inr Pair Cons.prems p show ?thesis by (simp split: if_splits)
      next
        case False
        with Inr Pair Cons.prems
        have "range_page rel start ct (if isNew then nt @ [t] else nt) st1 = (fl, st')"
          by (simp add: Let_def)
        from Cons.IH [OF this] p show ?thesis
          by (rule prefix_order.order_trans [rotated])
      qed
    qed
  qed
qed

lemma paging_keeps_rows_snd:
  assumes run: "paging List0 rel0 start0 token0 nt0 cl0 st0 = Some y0"
  shows "prefix (tenders st0) (tenders (snd (snd y0)))"
proof (rule paging.raw_induct
    [where P = "\<lambda>List rel start token nt cl st y. prefix (tenders st) (tenders (snd (snd y)))",
     OF _ run], goal_cases)
  case (1 loop List rel start token nt cl st y)
  note IH = "1"(1) and prems = "1"(2)
  show ?case
  proof (cases "List cl token")
    case (Pair res cl1)
    show ?thesis
    proof (cases res)
      case (Inl e)
      with Pair prems show ?thesis by auto
    next
      case (Inr pg)
      obtain ct nextToken where pg: "pg = (ct, nextToken)" by (cases pg)
      obtain fl st1 where rp: "range_page rel start ct nt st = (fl, st1)"
        by (cases "range_page rel start ct nt st")
      have p: "prefix (tenders st) (tenders st1)"
        by (rule range_page_keeps_rows [OF rp])
      show ?thesis
      proof (cases fl)
        case (Failed e)
        with Pair Inr pg rp prems p show ?thesis by auto
      next
        case (BreakOuter nt1)
        with Pair Inr pg rp prems p show ?thesis by auto
      next
        case (PageDone nt1)
        show ?thesis
        proof (cases "nextToken = []")
          case True
          with PageDone Pair Inr pg rp prems p show ?thesis by auto
        next
          case False
          with PageDone Pair Inr pg rp prems
          have "loop List rel start nextToken nt1 cl1 st1 = Some y"
            by simp
          from IH [OF this] p show ?thesis
            by (rule prefix_order.order_trans [rotated])
        qed
      qed
    qed
  qed
qed

lemma paging_keeps_rows:
  "paging List rel start token nt cl st = Some (r, cl', st') \<Longrightarrow> prefix (tenders st) (tenders st')"
  using paging_keeps_rows_snd [of List rel start token nt cl st "(r, cl', st')"] by simp

lemma follow_append:
  "follow List cl token (ps @ qs)
     = (case follow List cl token ps of
          None \<Rightarrow> None
        | Some cl1 \<Rightarrow> follow List cl1 (last (token # map snd ps)) qs)"
  by (induction ps arbitrary: cl token) (auto split: prod.splits sum.splits option.splits)

lemma paging_through:
  assumes "calm (length (concat (map fst ps))) st"
    and "follow List cl token ps = Some cl1"
    and "\<forall>p \<in> set ps. snd p \<noteq> []"
    and "\<forall>u \<in> set (concat (map fst ps)). \<not> Before (rel u) start"
  shows "paging List rel start token nt cl st
       = paging List rel start (last (token # map snd ps))
           (nt @ fresh (ids st) (concat (map fst ps))) cl1 (add_all (concat (map fst ps)) st)"
  using assms
proof (induction ps arbitrary: cl token nt st)
  case Nil
  then show ?case by simp
next
  case (Cons p ps)
  obtain ct nx where p: "p = (ct, nx)" by (cases p)
  from Cons.prems(2) p have "follow List cl token ((ct, nx) # ps) = Some cl1"
    by simp
  then obtain cl0 where l: "List cl token = (Inr (ct, nx), cl0)"
    and f: "follow List cl0 nx ps = Some cl1"
    by (rule follow_Cons_elim)
  from Cons.prems(3) p have nx: "nx \<noteq> []" and rest: "\<forall>p \<in> set ps. snd p \<noteq> []"
    by simp_all
  from Cons.prems(4) p have n1: "\<forall>u \<in> set ct. \<not> Before (rel u) start"
    and n2: "\<forall>u \<in> set (concat (map fst ps)). \<not> Before (rel u) start"
    by auto
  from Cons.prems(1) p have c0: "calm (length ct + length (concat (map fst ps))) st"
    by simp
  have c1: "calm (length ct) st"
    by (rule calm_less [OF c0]) simp
  have w: "calm (length (concat (map fst ps))) (add_all ct st)"
    by (rule calm_add_all [OF c0])
  have "paging List rel start token nt cl st
        = paging List rel start nx (nt @ fresh (ids st) ct) cl0 (add_all ct st)"
    using paging_next_page [of ct st List cl token nx cl0 rel start nt] c1 l nx n1
    by simp
  also have "\<dots> = paging List rel start (last (nx # map snd ps))
                 ((nt @ fresh (ids st) ct) @ fresh (ids (add_all ct st)) (concat (map fst ps))) cl1
                 (add_all (concat (map fst ps)) (add_all ct st))"
    using Cons.IH [where st = "add_all ct st" and cl = cl0 and token = nx
                     and nt = "nt @ fresh (ids st) ct"] w f rest n2
    by simp
  finally show ?case
    using p by (simp add: add_all_ids [OF c1] add_all_append fresh_append [of _ ct])
qed

lemma paging_early_exit:
  assumes "calm (length (concat (map fst ps) @ pre @ [t])) st"
    and "follow List cl token (ps @ [(pre @ t # post, next)]) = Some cl'"
    and "\<forall>p \<in> set ps. snd p \<noteq> []"
    and "\<forall>u \<in> set (concat (map fst ps) @ pre). \<not> Before (rel u) start"
    and "Before (rel t) start"
  shows "paging List rel start token nt cl st
       = Some (Inr (nt @ fresh (ids st) (concat (map fst ps) @ pre @ [t])), cl',
               add_all (concat (map fst ps) @ pre @ [t]) st)"
proof -
  let ?all = "concat (map fst ps)" and ?tok = "last (token # map snd ps)"
  from assms(2) obtain cl1 where f: "follow List cl token ps = Some cl1"
    and g: "follow List cl1 ?tok ((pre @ t # post, next) # []) = Some cl'"
    by (auto simp: follow_append split: option.splits)
  from g obtain cl2 where l: "List cl1 ?tok = (Inr (pre @ t # post, next), cl2)"
    and c: "follow List cl2 next [] = Some cl'"
    by (rule follow_Cons_elim)
  from assms(4) have n1: "\<forall>u \<in> set ?all. \<not> Before (rel u) start"
    and n2: "\<forall>u \<in> set pre. \<not> Before (rel u) start"
    by auto
  from assms(1) have c0: "calm (length ?all + Suc (length pre)) st"
    by simp
  have c1: "calm (length ?all) st"
    by (rule calm_less [OF c0]) simp
  have w: "calm (Suc (length pre)) (add_all ?all st)"
    by (rule calm_add_all [OF c0])
  have "paging List rel start token nt cl st
        = paging List rel start ?tok (nt @ fresh (ids st) ?all) cl1 (add_all ?all st)"
    using paging_through [of ps st List cl token cl1 rel start nt] c1 f assms(3) n1
    by simp
  also have "\<dots> = Some (Inr ((nt @ fresh (ids st) ?all) @ fresh (ids (add_all ?all st)) (pre @ [t])),
                 cl2, add_all (pre @ [t]) (add_all ?all st))"
    using paging_trigger [of pre "add_all ?all st" List cl1 ?tok t post "next" cl2 rel start
                             "nt @ fresh (ids st) ?all"] w l n2 assms(5)
    by simp
  finally show ?thesis
    using c by (simp add: add_all_ids [OF c1] add_all_append fresh_append [of _ ?all])
qed

lemma paging_all_pages:
  assumes "calm (length (concat (map fst ps) @ ct)) st"
    and "follow List cl token (ps @ [(ct, [])]) = Some cl'"
    and "\<forall>p \<in> set ps. snd p \<noteq> []"
    and "\<forall>u \<in> set (concat (map fst ps) @ ct). \<not> Before (rel u) start"
  shows "paging List rel start token nt cl st
       = Some (Inr (nt @ fresh (ids st) (concat (map fst ps) @ ct)), cl',
               add_all (concat (map fst ps) @ ct) st)"
proof -
  let ?all = "concat (map fst ps)" and ?tok = "last (token # map snd ps)"
  from assms(2) obtain cl1 where f: "follow List cl token ps = Some cl1"
    and g: "follow List cl1 ?tok ((ct, []) # []) = Some cl'"
    by (auto simp: follow_append split: option.splits)
  from g obtain cl2 where l: "List cl1 ?tok = (Inr (ct, []), cl2)"
    and c: "follow List cl2 [] [] = Some cl'"
    by (rule follow_Cons_elim)
  from assms(4) have n1: "\<forall>u \<in> set ?all. \<not> Before (rel u) start"
    and n2: "\<forall>u \<in> set ct. \<not> Before (rel u) start"
    by auto
  from assms(1) have c0: "calm (length ?all + length ct) st"
    by simp
  have c1: "calm (length ?all) st"
    by (rule calm_less [OF c0]) simp
  have w: "calm (length ct) (add_all ?all st)"
    by (rule calm_add_all [OF c0])
  have "paging List rel start token nt cl st
        = paging List rel start ?tok (nt @ fresh (ids st) ?all) cl1 (add_all ?all st)"
    using paging_through [of ps st List cl token cl1 rel start nt] c1 f assms(3) n1
    by simp
  also have "\<dots> = Some (Inr ((nt @ fresh (ids st) ?all) @ fresh (ids (add_all ?all st)) ct),
                 cl2, add_all ct (add_all ?all st))"
    using paging_last_page [of ct "add_all ?all st" List cl1 ?tok cl2 rel start
                               "nt @ fresh (ids st) ?all"] w l n2
    by simp
  finally show ?thesis
    using c by (simp add: add_all_ids [OF c1] add_all_append fresh_append [of _ ?all])
qed

lemma paging_List_fails:
  assumes "calm (length (concat (map fst ps))) st"
    and "follow List cl token ps = Some cl1"
    and "\<forall>p \<in> set ps. snd p \<noteq> []"
    and "\<forall>u \<in> set (concat (map fst ps)). \<not> Before (rel u) start"
    and "List cl1 (last (token # map snd ps)) = (Inl e, cl2)"
  shows "paging List rel start token nt cl st = Some (Inl e, cl2, add_all (concat (map fst ps)) st)"
  using paging_through [of ps st List cl token cl1 rel start nt] assms
        paging_List_error [of List cl1 "last (token # map snd ps)" e cl2 rel start]
  by simp

lemma add_StmtFault:
  "faults w = StmtFault # fs \<Longrightarrow> fst (add t w) = Inl InsertErr \<and> tenders (snd (add t w)) = tenders w"
  by (simp add: add_def Exec_insert_def next_fault_def time_Now_def)

lemma add_ResultFault:
  "faults w = ResultFault # fs \<Longrightarrow> fst (add t w) = Inl AffectedErr"
  by (simp add: add_def Exec_insert_def next_fault_def time_Now_def Let_def)

lemma add_fault:
  "faults w = f # fs \<Longrightarrow> f \<noteq> NoFault \<Longrightarrow>
   fst (add t w) = Inl (if f = StmtFault then InsertErr else AffectedErr)"
  by (cases f) (simp_all add: add_StmtFault add_ResultFault)

lemma range_page_add_fails:
  "calm (length pre) st \<Longrightarrow> drop (length pre) (faults st) = f # fs \<Longrightarrow> f \<noteq> NoFault \<Longrightarrow>
   \<forall>u \<in> set pre. \<not> Before (rel u) start \<Longrightarrow>
   range_page rel start (pre @ t # post) nt st
     = (Failed (if f = StmtFault then InsertErr else AffectedErr), snd (add t (add_all pre st)))"
proof (induction pre arbitrary: nt st)
  case Nil
  then have "fst (add t st) = Inl (if f = StmtFault then InsertErr else AffectedErr)"
    by (simp add: add_fault)
  then show ?case by (cases "add t st") simp
next
  case (Cons p pre)
  from Cons.prems(1) have "calm (Suc (length pre)) st" by simp
  then obtain st1 where a: "add p st = (Inr (ID p \<notin> set (ids st)), st1)"
    and c: "calm (length pre) st1"
    by (rule add_calm_result)
  have "faults st1 = drop 1 (faults st)"
    using add_faults [of p st] a by simp
  with Cons.prems(2) have d: "drop (length pre) (faults st1) = f # fs"
    by simp
  from Cons.prems(4) have n: "\<not> Before (rel p) start" and r: "\<forall>u \<in> set pre. \<not> Before (rel u) start"
    by simp_all
  show ?case
    using a n Cons.IH [OF c d Cons.prems(3) r] by simp
qed

lemma paging_add_fails:
  assumes "calm (length (concat (map fst ps) @ pre)) st"
    and "drop (length (concat (map fst ps) @ pre)) (faults st) = f # fs" and "f \<noteq> NoFault"
    and "follow List cl token (ps @ [(pre @ t # post, next)]) = Some cl'"
    and "\<forall>p \<in> set ps. snd p \<noteq> []"
    and "\<forall>u \<in> set (concat (map fst ps) @ pre). \<not> Before (rel u) start"
  shows "paging List rel start token nt cl st
       = Some (Inl (if f = StmtFault then InsertErr else AffectedErr), cl',
               snd (add t (add_all (concat (map fst ps) @ pre) st)))"
proof -
  let ?all = "concat (map fst ps)" and ?tok = "last (token # map snd ps)"
  from assms(4) obtain cl1 where fo: "follow List cl token ps = Some cl1"
    and g: "follow List cl1 ?tok ((pre @ t # post, next) # []) = Some cl'"
    by (auto simp: follow_append split: option.splits)
  from g obtain cl2 where l: "List cl1 ?tok = (Inr (pre @ t # post, next), cl2)"
    and c: "follow List cl2 next [] = Some cl'"
    by (rule follow_Cons_elim)
  from assms(6) have n1: "\<forall>u \<in> set ?all. \<not> Before (rel u) start"
    and n2: "\<forall>u \<in> set pre. \<not> Before (rel u) start"
    by auto
  from assms(1) have c0: "calm (length ?all + length pre) st"
    by simp
  have c1: "calm (length ?all) st"
    by (rule calm_less [OF c0]) simp
  have w: "calm (length pre) (add_all ?all st)"
    by (rule calm_add_all [OF c0])
  have d: "drop (length pre) (faults (add_all ?all st)) = f # fs"
    using assms(2) by (simp add: add_all_faults add.commute)
  have "paging List rel start token nt cl st
        = paging List rel start ?tok (nt @ fresh (ids st) ?all) cl1 (add_all ?all st)"
    using paging_through [of ps st List cl token cl1 rel start nt] c1 fo assms(5) n1
    by simp
  also have "\<dots> = Some (Inl (if f = StmtFault then InsertErr else AffectedErr), cl2,
                 snd (add t (add_all pre (add_all ?all st))))"
    using paging_add_error [of List cl1 ?tok "pre @ t # post" "next" cl2 rel start
                               "nt @ fresh (ids st) ?all" "add_all ?all st"]
          l range_page_add_fails [OF w d assms(3) n2]
    by simp
  finally show ?thesis
    using c by (simp add: add_all_append)
qed

text \<open>
  C2: the loop of \<open>findNew\<close>, for any client, any cut-off \<open>start\<close> and either date
  \<open>rel\<close>. The client lists the pages \<open>ps\<close>, each with a cursor, and then a page on which
  \<open>t\<close> is the first record of the whole listing dated before the cut-off; the database
  answers the inserts. Then the run ends with that page: the client is in the state the
  call for that page left it in (no further call of \<open>List\<close>), the table is the one after
  \<open>add\<close> of every record up to \<open>t\<close>, with \<open>t\<close> and without the records after it, and
  the output is the records whose rows were inserted, in the order of the listing.
\<close>

theorem early_exit_ends_the_run:
  assumes "calm (length (concat (map fst ps) @ pre @ [t])) st"
    and "follow List cl [] (ps @ [(pre @ t # post, next)]) = Some cl'"
    and "\<forall>p \<in> set ps. snd p \<noteq> []"
    and "\<forall>u \<in> set (concat (map fst ps) @ pre). \<not> Before (rel u) start"
    and "Before (rel t) start"
  shows "paging List rel start [] [] cl st
           = Some (Inr (fresh (ids st) (concat (map fst ps) @ pre @ [t])), cl',
                   add_all (concat (map fst ps) @ pre @ [t]) st)
       \<and> ids (add_all (concat (map fst ps) @ pre @ [t]) st)
           = ids st @ map ID (fresh (ids st) (concat (map fst ps) @ pre @ [t]))"
  using paging_early_exit [OF assms, of "[]"] add_all_ids [OF assms(1)] by simp

theorem early_exit_ends_the_run_witness:
  "paging script_List IssuedDate (day_at 2024 2 1) [] [] three_pages empty_store
     = Some (Inr [N1, N2, N3, N4], [Inr ([N6], [])], add_all [N1, N2, N3, N4] empty_store)
   \<and> ids (add_all [N1, N2, N3, N4] empty_store) = [''N1'', ''N2'', ''N3'', ''N4'']"
proof -
  have c: "calm (length (concat (map fst [([N1, N2], ''2'')]) @ [N3] @ [N4])) empty_store"
    by (simp add: calm_def empty_store_def)
  have f: "follow script_List three_pages [] ([([N1, N2], ''2'')] @ [([N3] @ N4 # [N5], ''3'')])
             = Some [Inr ([N6], [])]"
    by (simp add: script_List_def three_pages_def)
  have n: "\<forall>p \<in> set [([N1, N2], ''2'')]. snd p \<noteq> []"
    by simp
  have e: "\<forall>u \<in> set (concat (map fst [([N1, N2], ''2'')]) @ [N3]). \<not> Before (IssuedDate u) (day_at 2024 2 1)"
    by (simp add: N1_def N2_def N3_def notice_def day_at_def Before_def)
  have b: "Before (IssuedDate N4) (day_at 2024 2 1)"
    by (simp add: N4_def notice_def day_at_def Before_def)
  have i: "fresh (ids empty_store) [N1, N2, N3, N4] = [N1, N2, N3, N4]"
    by (simp add: ids_def empty_store_def N1_def N2_def N3_def N4_def notice_def)
  show ?thesis
    using early_exit_ends_the_run [OF c f n e b] i by (simp add: ids_def empty_store_def N1_def N2_def N3_def N4_def notice_def)
qed

section \<open>The driver: the cut-off\<close>

lemma max_column_working:
  "faults st = [] \<Longrightarrow>
   max_column col st
     = (Inr (case sql_max (map col (tenders st)) of
               None \<Rightarrow> zero_time
             | Some s \<Rightarrow> (case Parse_date s of None \<Rightarrow> zero_time | Some t \<Rightarrow> t)), st)"
  by (simp add: max_column_def QueryRow_max_def next_fault_def split: option.splits)

lemma max_column_fault:
  "faults st = f # fs \<Longrightarrow> f \<noteq> NoFault \<Longrightarrow> max_column col st = (Inl QueryErr, st\<lparr>faults := fs\<rparr>)"
  by (simp add: max_column_def QueryRow_max_def next_fault_def)

lemma maxIssued_empty: "faults st = [] \<Longrightarrow> tenders st = [] \<Longrightarrow> maxIssued st = (Inr zero_time, st)"
  by (simp add: maxIssued_def max_column_working sql_max_def)

lemma maxObserved_empty: "faults st = [] \<Longrightarrow> tenders st = [] \<Longrightarrow> maxObserved st = (Inr zero_time, st)"
  by (simp add: maxObserved_def max_column_working sql_max_def)

lemma maxIssued_working_snd: "faults st = [] \<Longrightarrow> snd (maxIssued st) = st"
  by (simp add: maxIssued_def max_column_working)

lemma IsZero_zero_time [simp]: "IsZero zero_time"
  by (simp add: IsZero_def zero_time_def)

lemma not_Before_zero_time:
  "1 \<le> year t \<Longrightarrow> 1 \<le> month t \<Longrightarrow> 1 \<le> day t \<Longrightarrow> 0 \<le> nsec t \<Longrightarrow> \<not> Before t zero_time"
  by (auto simp: Before_def zero_time_def)

lemma Before_zero_time: "valid_time t \<Longrightarrow> Before t zero_time \<longleftrightarrow> year t < 1"
  by (auto simp: Before_def zero_time_def valid_time_def)

lemma findNew_issued_working:
  assumes "faults st = []" and "fst (maxIssued st) = Inr mx"
  shows "findNew_issued List cl st
       = paging List IssuedDate (if \<not> IsZero mx then AddDate_months mx (- 1) else mx) [] [] cl st"
proof -
  from assms have "maxIssued st = (Inr mx, st)"
    using maxIssued_working_snd [OF assms(1)] by (cases "maxIssued st") simp
  then show ?thesis
    by (simp add: findNew_issued_def)
qed

section \<open>Dates as text\<close>

lemma decimal_1: "0 \<le> n \<Longrightarrow> n < 10 \<Longrightarrow> decimal n = [digit n]"
  by (simp add: decimal.simps)

lemma decimal_2: "10 \<le> n \<Longrightarrow> n < 100 \<Longrightarrow> decimal n = [digit (n div 10), digit (n mod 10)]"
  by (subst decimal.simps) (simp add: decimal_1)

lemma div_10_10: "(n::int) div 10 div 10 = n div 100"
  using zdiv_zmult2_eq [of 10 n 10] by simp

lemma div_10_100: "(n::int) div 10 div 100 = n div 1000"
  using zdiv_zmult2_eq [of 100 n 10] by simp

lemma decimal_3:
  "100 \<le> n \<Longrightarrow> n < 1000 \<Longrightarrow> decimal n = [digit (n div 100), digit (n div 10 mod 10), digit (n mod 10)]"
  by (subst decimal.simps) (simp add: decimal_2 div_10_10)

lemma decimal_4:
  "1000 \<le> n \<Longrightarrow> n < 10000 \<Longrightarrow>
   decimal n = [digit (n div 1000), digit (n div 100 mod 10), digit (n div 10 mod 10), digit (n mod 10)]"
  by (subst decimal.simps) (simp add: decimal_3 div_10_10 div_10_100)

lemma digit_0: "digit 0 = CHR ''0''"
  by code_simp

lemma appendInt_2:
  assumes "0 \<le> x" and "x < 100"
  shows "appendInt x 2 = [digit (x div 10), digit (x mod 10)]"
proof (cases "x < 10")
  case True
  with assms show ?thesis by (simp add: appendInt_def decimal_1 digit_0)
next
  case False
  with assms show ?thesis by (simp add: appendInt_def decimal_2)
qed

lemma appendInt_4:
  assumes "0 \<le> x" and "x < 10000"
  shows "appendInt x 4
       = [digit (x div 1000), digit (x div 100 mod 10), digit (x div 10 mod 10), digit (x mod 10)]"
proof -
  consider "x < 10" | "10 \<le> x" "x < 100" | "100 \<le> x" "x < 1000" | "1000 \<le> x"
    by linarith
  then show ?thesis
  proof cases
    case 1
    with assms show ?thesis by (simp add: appendInt_def decimal_1 digit_0 numeral_eq_Suc)
  next
    case 2
    with assms show ?thesis by (simp add: appendInt_def decimal_2 digit_0 numeral_eq_Suc)
  next
    case 3
    with assms show ?thesis by (simp add: appendInt_def decimal_3 digit_0 numeral_eq_Suc)
  next
    case 4
    with assms show ?thesis by (simp add: appendInt_def decimal_4)
  qed
qed

lemma of_char_digit: "0 \<le> n \<Longrightarrow> n \<le> 9 \<Longrightarrow> (of_char (digit n) :: int) = 48 + n"
  by (simp add: digit_def)

lemma isDigit_digit: "0 \<le> n \<Longrightarrow> n \<le> 9 \<Longrightarrow> isDigit (digit n)"
  by (simp add: isDigit_def of_char_digit)

lemma digit_val_digit: "0 \<le> n \<Longrightarrow> n \<le> 9 \<Longrightarrow> digit_val (digit n) = n"
  by (simp add: digit_val_def of_char_digit)

lemma digit_less_iff:
  assumes "0 \<le> a" "a \<le> 9" "0 \<le> b" "b \<le> 9"
  shows "digit a < digit b \<longleftrightarrow> a < b"
proof -
  have "(of_char (digit a) :: nat) = nat (48 + a)" "(of_char (digit b) :: nat) = nat (48 + b)"
    using of_char_digit [OF assms(1,2)] of_char_digit [OF assms(3,4)]
    by (simp_all flip: nat_of_char)
  with assms show ?thesis
    by (simp add: less_char_def)
qed

lemma digit_eq_iff:
  assumes "0 \<le> a" "a \<le> 9" "0 \<le> b" "b \<le> 9"
  shows "digit a = digit b \<longleftrightarrow> a = b"
proof
  assume "digit a = digit b"
  then have "(of_char (digit a) :: int) = of_char (digit b)"
    by (rule arg_cong)
  then show "a = b"
    by (simp only: of_char_digit [OF assms(1,2)] of_char_digit [OF assms(3,4)] add_left_cancel)
next
  assume "a = b"
  then show "digit a = digit b" by (rule arg_cong)
qed

lemma dash_not_digit: "\<not> isDigit (CHR ''-'')"
  by code_simp

lemma two_digits:
  fixes x :: int
  assumes "0 \<le> x" and "x < 100"
  shows "0 \<le> x div 10" "x div 10 \<le> 9" "0 \<le> x mod 10" "x mod 10 \<le> 9"
  using assms by linarith+

lemma two_digits_value: "(x::int) div 10 * 10 + x mod 10 = x"
  by simp

lemma four_digits:
  fixes x :: int
  assumes "0 \<le> x" and "x < 10000"
  shows "0 \<le> x div 1000" "x div 1000 \<le> 9" "0 \<le> x div 100 mod 10" "x div 100 mod 10 \<le> 9"
    "0 \<le> x div 10 mod 10" "x div 10 mod 10 \<le> 9" "0 \<le> x mod 10" "x mod 10 \<le> 9"
  using assms by linarith+

lemma four_digits_value:
  fixes x :: int
  shows "x div 1000 * 1000 + x div 100 mod 10 * 100 + x div 10 mod 10 * 10 + x mod 10 = x"
proof -
  define a where "a = x div 1000"
  define b where "b = x div 100 mod 10"
  define c where "c = x div 10 mod 10"
  define d where "d = x mod 10"
  define p where "p = x div 10"
  define q where "q = x div 100"
  have 1: "x = p * 10 + d"
    by (simp add: p_def d_def)
  have "p div 10 = q"
    using zdiv_zmult2_eq [of 10 x 10] by (simp add: p_def q_def)
  then have 2: "p = q * 10 + c"
    using div_mult_mod_eq [of p 10] by (simp add: c_def p_def)
  have "q div 10 = a"
    using zdiv_zmult2_eq [of 10 x 100] by (simp add: a_def q_def)
  then have 3: "q = a * 10 + b"
    using div_mult_mod_eq [of q 10] by (simp add: b_def q_def)
  have "a * 1000 + b * 100 + c * 10 + d = x"
    unfolding 1 2 3 by (simp add: algebra_simps)
  then show ?thesis
    by (simp add: a_def b_def c_def d_def)
qed

lemma Format_date_chars:
  assumes "four_digit_date t"
  shows "Format_date t
       = [digit (year t div 1000), digit (year t div 100 mod 10), digit (year t div 10 mod 10),
          digit (year t mod 10), CHR ''-'', digit (month t div 10), digit (month t mod 10),
          CHR ''-'', digit (day t div 10), digit (day t mod 10)]"
proof -
  from assms have y: "0 \<le> year t" "year t < 10000" and m: "0 \<le> month t" "month t < 100"
    and d: "0 \<le> day t" "day t < 100"
    by (auto simp: four_digit_date_def valid_time_def daysIn_def split: if_splits)
  show ?thesis
    by (simp add: Format_date_def appendInt_4 [OF y] appendInt_2 [OF m] appendInt_2 [OF d])
qed

lemma Parse_Format_date:
  assumes "four_digit_date t"
  shows "Parse_date (Format_date t) = Some (date_of t)"
proof -
  from assms have y: "0 \<le> year t" "year t < 10000" and m: "0 \<le> month t" "month t < 100"
    and d: "0 \<le> day t" "day t < 100"
    and v: "1 \<le> month t" "month t \<le> 12" "1 \<le> day t" "day t \<le> daysIn (month t) (year t)"
    by (auto simp: four_digit_date_def valid_time_def daysIn_def split: if_splits)
  note yd = four_digits [OF y] and md = two_digits [OF m] and dd = two_digits [OF d]
  show ?thesis
    using v
    by (simp add: Format_date_chars [OF assms] isDigit_digit digit_val_digit yd md dd date_of_def
        four_digits_value two_digits_value)
qed

lemma lex_div_10: "(x::int) < y \<longleftrightarrow> x div 10 < y div 10 \<or> (x div 10 = y div 10 \<and> x mod 10 < y mod 10)"
proof -
  have x: "x = x div 10 * 10 + x mod 10" and y: "y = y div 10 * 10 + y mod 10"
    by simp_all
  have b: "0 \<le> x mod 10" "x mod 10 < 10" "0 \<le> y mod 10" "y mod 10 < 10"
    by simp_all
  define p r q s where "p = x div 10" and "r = x mod 10" and "q = y div 10" and "s = y mod 10"
  from x y b have "x = p * 10 + r" "y = q * 10 + s" "0 \<le> r" "r < 10" "0 \<le> s" "s < 10"
    by (simp_all add: p_def r_def q_def s_def)
  then have "x < y \<longleftrightarrow> p < q \<or> (p = q \<and> r < s)"
    by auto
  then show ?thesis
    by (simp add: p_def r_def q_def s_def)
qed

lemma eq_div_10: "(x::int) = y \<longleftrightarrow> x div 10 = y div 10 \<and> x mod 10 = y mod 10"
  by (metis div_mult_mod_eq)

lemma div_100_10: "(n::int) div 100 div 10 = n div 1000"
  using zdiv_zmult2_eq [of 10 n 100] by simp

lemma lex_two_digits:
  "(x::int) < y \<longleftrightarrow> x div 10 < y div 10 \<or> x div 10 = y div 10 \<and> x mod 10 < y mod 10"
  by (rule lex_div_10)

lemma lex_four_digits:
  "(x::int) < y \<longleftrightarrow>
     x div 1000 < y div 1000 \<or> x div 1000 = y div 1000 \<and>
      (x div 100 mod 10 < y div 100 mod 10 \<or> x div 100 mod 10 = y div 100 mod 10 \<and>
        (x div 10 mod 10 < y div 10 mod 10 \<or> x div 10 mod 10 = y div 10 mod 10 \<and>
          x mod 10 < y mod 10))"
proof -
  note l1 = lex_div_10 [of x y]
    and l2 = lex_div_10 [of "x div 10" "y div 10", unfolded div_10_10]
    and l3 = lex_div_10 [of "x div 100" "y div 100", unfolded div_100_10]
    and e2 = eq_div_10 [of "x div 10" "y div 10", unfolded div_10_10]
    and e3 = eq_div_10 [of "x div 100" "y div 100", unfolded div_100_10]
  show ?thesis
    unfolding l1 l2 l3 e2 e3 by blast
qed

lemma eq_four_digits:
  "(x::int) = y \<longleftrightarrow>
     x div 1000 = y div 1000 \<and> x div 100 mod 10 = y div 100 mod 10 \<and>
     x div 10 mod 10 = y div 10 mod 10 \<and> x mod 10 = y mod 10"
proof -
  note e1 = eq_div_10 [of x y]
    and e2 = eq_div_10 [of "x div 10" "y div 10", unfolded div_10_10]
    and e3 = eq_div_10 [of "x div 100" "y div 100", unfolded div_100_10]
  show ?thesis
    unfolding e1 e2 e3 by blast
qed

lemma Format_date_less:
  assumes "four_digit_date a" and "four_digit_date b"
  shows "Format_date a < Format_date b \<longleftrightarrow> Before (date_of a) (date_of b)"
proof -
  from assms(1) have ya: "0 \<le> year a" "year a < 10000" and ma: "0 \<le> month a" "month a < 100"
    and da: "0 \<le> day a" "day a < 100"
    by (auto simp: four_digit_date_def valid_time_def daysIn_def split: if_splits)
  from assms(2) have yb: "0 \<le> year b" "year b < 10000" and mb: "0 \<le> month b" "month b < 100"
    and db: "0 \<le> day b" "day b < 100"
    by (auto simp: four_digit_date_def valid_time_def daysIn_def split: if_splits)
  note bounds = four_digits [OF ya] four_digits [OF yb] two_digits [OF ma] two_digits [OF mb]
    two_digits [OF da] two_digits [OF db]
  have "Format_date a < Format_date b \<longleftrightarrow>
        year a < year b \<or> year a = year b \<and>
          (month a < month b \<or> month a = month b \<and> day a < day b)"
    unfolding Format_date_chars [OF assms(1)] Format_date_chars [OF assms(2)]
      lex_four_digits [of "year a" "year b"] eq_four_digits [of "year a" "year b"]
      lex_two_digits [of "month a" "month b"] eq_div_10 [of "month a" "month b"]
      lex_two_digits [of "day a" "day b"]
    by (simp add: digit_less_iff digit_eq_iff bounds) blast
  then show ?thesis
    by (simp add: Before_def date_of_def)
qed

lemma Format_date_eq:
  assumes "four_digit_date a" and "four_digit_date b"
  shows "Format_date a = Format_date b \<longleftrightarrow> date_of a = date_of b"
proof
  assume "Format_date a = Format_date b"
  then have "Parse_date (Format_date a) = Parse_date (Format_date b)"
    by simp
  then show "date_of a = date_of b"
    by (simp add: Parse_Format_date assms)
next
  assume "date_of a = date_of b"
  then have "year a = year b" "month a = month b" "day a = day b"
    by (auto simp: date_of_def dest: arg_cong [where f = year] arg_cong [where f = month] arg_cong [where f = day])
  then show "Format_date a = Format_date b"
    by (simp add: Format_date_def)
qed

section \<open>The store: the greatest issue date\<close>

lemma max_Format_date:
  assumes "four_digit_date x" "nsec x = 0" "four_digit_date acc" "nsec acc = 0"
  shows "max (Format_date x) (Format_date acc) = Format_date (later acc x)"
proof -
  have d: "date_of x = x" "date_of acc = acc"
    using assms(2,4) by (simp_all add: date_of_def)
  have "Format_date x \<le> Format_date acc \<longleftrightarrow> \<not> Before acc x"
    using Format_date_less [OF assms(3) assms(1)] d by (simp add: not_less [symmetric])
  then show ?thesis
    by (simp add: max_def later_def)
qed

lemma later_cases: "later a b = a \<or> later a b = b"
  by (simp add: later_def)

lemma fold_later_in: "fold (\<lambda>x acc. later acc x) ds d \<in> set (d # ds)"
proof (induction ds arbitrary: d)
  case Nil
  then show ?case by simp
next
  case (Cons x ds)
  from Cons.IH [of "later d x"] later_cases [of d x] show ?case by auto
qed

lemma fold_max_Format_date:
  assumes "\<forall>x \<in> set (d # ds). four_digit_date x \<and> nsec x = 0"
  shows "fold max (map Format_date ds) (Format_date d) = Format_date (fold (\<lambda>x acc. later acc x) ds d)"
  using assms
proof (induction ds arbitrary: d)
  case Nil
  then show ?case by simp
next
  case (Cons x ds)
  from Cons.prems have x: "four_digit_date x" "nsec x = 0" and d: "four_digit_date d" "nsec d = 0"
    by simp_all
  have l: "four_digit_date (later d x) \<and> nsec (later d x) = 0"
    using x d by (simp add: later_def)
  with Cons.prems have "\<forall>y \<in> set (later d x # ds). four_digit_date y \<and> nsec y = 0"
    by simp
  from Cons.IH [OF this] show ?case
    by (simp add: max_Format_date [OF x d])
qed

lemma latest_in: "ds \<noteq> [] \<Longrightarrow> latest ds \<in> set ds"
  using fold_later_in by (cases ds) (auto simp: latest_def)

lemma Before_trans_later: "\<not> Before (later a b) a \<and> \<not> Before (later a b) b"
  by (auto simp: later_def Before_def)

lemma not_Before_later_mono: "\<not> Before a c \<Longrightarrow> \<not> Before (later a b) c"
  by (auto simp: later_def Before_def)

lemma fold_later_greatest:
  "\<forall>y \<in> set (d # ds). \<not> Before (fold (\<lambda>x acc. later acc x) ds d) y"
proof (induction ds arbitrary: d)
  case Nil
  then show ?case by (simp add: Before_def)
next
  case (Cons x ds)
  have k: "\<And>c e. \<not> Before e c \<Longrightarrow> \<not> Before (fold (\<lambda>x acc. later acc x) ds e) c"
  proof -
    fix c e assume "\<not> Before e c"
    then show "\<not> Before (fold (\<lambda>x acc. later acc x) ds e) c"
      by (induction ds arbitrary: e) (simp_all add: not_Before_later_mono)
  qed
  from Cons.IH [of "later d x"] k [of "later d x" d] k [of "later d x" x]
    Before_trans_later [of d x]
  show ?case by simp
qed

lemma latest_greatest: "\<forall>y \<in> set ds. \<not> Before (latest ds) y"
  using fold_later_greatest by (cases ds) (simp_all add: latest_def)

text \<open>
  Over a table whose issue dates were written from dates of four-digit years, as \<open>add\<close>
  writes them for the records of the clients, \<open>maxIssued\<close> answers the latest of them.
\<close>

lemma maxIssued_latest:
  assumes "faults st = []"
    and "map col_issued (tenders st) = map Format_date ds"
    and "\<forall>x \<in> set ds. four_digit_date x \<and> nsec x = 0"
  shows "maxIssued st = (Inr (latest ds), st)"
proof (cases ds)
  case Nil
  with assms show ?thesis
    by (simp add: maxIssued_def max_column_working sql_max_def latest_def)
next
  case (Cons d ds')
  let ?m = "fold (\<lambda>x acc. later acc x) ds' d"
  have f: "fold max (map Format_date ds') (Format_date d) = Format_date ?m"
    using assms(3) Cons by (intro fold_max_Format_date) simp
  have "?m \<in> set ds"
    using fold_later_in [of ds' d] Cons by simp
  with assms(3) have m: "four_digit_date ?m" "nsec ?m = 0"
    by auto
  have "Parse_date (Format_date ?m) = Some ?m"
    using Parse_Format_date [OF m(1)] m(2) by (simp add: date_of_def)
  with f assms(1,2) Cons show ?thesis
    by (simp add: maxIssued_def max_column_working sql_max_def latest_def)
qed

section \<open>The store: the greatest first-observed time\<close>

lemma Parse_date_length: "Parse_date s = Some t \<Longrightarrow> length s = 10"
  by (induction s rule: Parse_date.induct) (simp_all split: if_splits)

lemma length_appendInt: "width \<le> length (appendInt x width)"
  by (simp add: appendInt_def Let_def)

lemma length_Format_date: "10 \<le> length (Format_date t)"
  using length_appendInt [of 4 "year t"] length_appendInt [of 2 "month t"]
    length_appendInt [of 2 "day t"]
  by (simp add: Format_date_def)

lemma Parse_date_Format_sqlite: "Parse_date (Format_sqlite t) = None"
proof (cases "Parse_date (Format_sqlite t)")
  case None
  then show ?thesis .
next
  case (Some u)
  from Parse_date_length [OF Some] length_Format_date [of t] show ?thesis
    by (simp add: Format_sqlite_def)
qed

lemma fold_max_in: "fold max xs (x::string) \<in> set (x # xs)"
proof (induction xs arbitrary: x)
  case Nil
  then show ?case by simp
next
  case (Cons y ys)
  from Cons.IH [of "max y x"] show ?case
    by (auto simp: max_def split: if_splits)
qed

text \<open>
  Over a table whose first-observed times were written by \<open>add\<close>, \<open>maxObserved\<close> answers
  the zero time, whatever the rows.
\<close>

lemma maxObserved_zero:
  assumes "faults st = []"
    and "\<forall>r \<in> set (tenders st). \<exists>t. col_first_observed r = Format_sqlite t"
  shows "maxObserved st = (Inr zero_time, st)"
proof (cases "tenders st")
  case Nil
  with assms(1) show ?thesis by (rule maxObserved_empty)
next
  case (Cons r rs)
  let ?m = "fold max (map col_first_observed rs) (col_first_observed r)"
  have "?m \<in> set (map col_first_observed (tenders st))"
    using fold_max_in [of "map col_first_observed rs" "col_first_observed r"] Cons by simp
  with assms(2) obtain t where "?m = Format_sqlite t"
    by auto
  then have "Parse_date ?m = None"
    by (simp add: Parse_date_Format_sqlite)
  with assms(1) Cons show ?thesis
    by (simp add: maxObserved_def max_column_working sql_max_def)
qed

lemma add_first_observed:
  assumes "\<forall>r \<in> set (tenders st). \<exists>t. col_first_observed r = Format_sqlite t"
  shows "\<forall>r \<in> set (tenders (snd (add u st))). \<exists>t. col_first_observed r = Format_sqlite t"
  using assms
  by (auto simp add: add_def Exec_insert_def next_fault_def time_Now_def Let_def row_of_def
      split: prod.splits sum.splits list.splits if_splits)

section \<open>The cut-off of the two policies\<close>

text \<open>
  C4, as the claim states it, fails at the zero date, which the driver takes for "no
  watermark". On a first run (empty table) the cut-off is January 1 of the year 1, and a
  record issued in the year 0, which \<^verbatim>\<open>time.Parse\<close> accepts, ends the run: the notice
  after it is never stored and the second page is never asked for. And over a table whose
  latest issue date is January 1 of the year 1, the cut-off is that day, not a month before.
\<close>

theorem findNew_issued_zero_date_counterexample:
  "tenders empty_store = []
   \<and> Parse_date ''0000-12-15'' = Some (IssuedDate Y0)
   \<and> findNew_issued script_List [Inr ([Y0, T2], ''2''), Inr ([T1], [])] empty_store
       = Some (Inr [Y0], [Inr ([T1], [])], add_all [Y0] empty_store)
   \<and> tenders store_Y1 \<noteq> []
   \<and> fst (maxIssued store_Y1) = Inr (IssuedDate Y1)
   \<and> \<not> Before (IssuedDate Y0) (AddDate_months (IssuedDate Y1) (- 1))
   \<and> findNew_issued script_List [Inr ([Y0, T2], ''2''), Inr ([T1], [])] store_Y1
       = Some (Inr [Y0], [Inr ([T1], [])], add_all [Y0] store_Y1)"
proof -
  let ?pages = "[Inr ([Y0, T2], ''2''), Inr ([T1], [])]"
  have l: "script_List ?pages [] = (Inr ([] @ Y0 # [T2], ''2''), [Inr ([T1], [])])"
    by (simp add: script_List_def)
  have b: "Before (IssuedDate Y0) zero_time"
    by (simp add: Y0_def notice_def day_at_def Before_def zero_time_def)
  have e: "faults empty_store = []" "tenders empty_store = []"
    by (simp_all add: empty_store_def)
  have m0: "maxIssued empty_store = (Inr zero_time, empty_store)"
    by (rule maxIssued_empty [OF e])
  have r0: "findNew_issued script_List ?pages empty_store
            = Some (Inr [Y0], [Inr ([T1], [])], add_all [Y0] empty_store)"
    using paging_trigger [of "[]" empty_store script_List ?pages "[]" Y0 "[T2]" "''2''"
                            "[Inr ([T1], [])]" IssuedDate zero_time "[]"] l b e
    by (simp add: findNew_issued_def m0 calm_def ids_def)
  have f1: "faults store_Y1 = []"
    by (simp add: store_Y1_def empty_store_def)
  have i1: "ids store_Y1 = [''Y1'']"
    by (simp add: store_Y1_def ids_def Y1_def notice_def)
  have "maxIssued store_Y1 = (Inr (latest [day_at 1 1 1]), store_Y1)"
    by (rule maxIssued_latest [OF f1])
       (simp_all add: store_Y1_def row_of_def Y1_def notice_def four_digit_date_def
          valid_time_def daysIn_def day_at_def)
  then have m1: "maxIssued store_Y1 = (Inr zero_time, store_Y1)"
    by (simp add: latest_def day_at_def zero_time_def)
  have r1: "findNew_issued script_List ?pages store_Y1
            = Some (Inr [Y0], [Inr ([T1], [])], add_all [Y0] store_Y1)"
    using paging_trigger [of "[]" store_Y1 script_List ?pages "[]" Y0 "[T2]" "''2''"
                            "[Inr ([T1], [])]" IssuedDate zero_time "[]"] l b f1 i1
    by (simp add: findNew_issued_def m1 calm_def Y0_def notice_def)
  have p: "Parse_date ''0000-12-15'' = Some (IssuedDate Y0)"
    by code_simp
  have n: "\<not> Before (IssuedDate Y0) (AddDate_months (IssuedDate Y1) (- 1))"
    by code_simp
  have z: "IssuedDate Y1 = zero_time"
    by (simp add: Y1_def notice_def day_at_def zero_time_def)
  show ?thesis
    using e(2) p r0 m1 n r1 z by (simp add: store_Y1_def)
qed

text \<open>
  C4 (amended): over a working database and a table of issue dates, under the issued-date
  policy the early exit compares each record's issue date with a cut-off that is the
  watermark (the latest issue date of the table) minus one month whenever the watermark is
  not the zero date; when the table is empty the cut-off is the zero date, January 1 of the
  year 1, so that a listing with no record issued before that day is paged through to its
  end and every record of it is offered to the store.
\<close>

theorem findNew_issued_cutoff:
  assumes "faults st = []"
    and "map col_issued (tenders st) = map Format_date ds"
    and "\<forall>x \<in> set ds. four_digit_date x \<and> nsec x = 0"
  shows "(\<not> IsZero (latest ds) \<longrightarrow>
            findNew_issued List cl st
              = paging List IssuedDate (AddDate_months (latest ds) (- 1)) [] [] cl st)
       \<and> (ds = [] \<longrightarrow>
            findNew_issued List cl st = paging List IssuedDate zero_time [] [] cl st)
       \<and> (ds = [] \<and> follow List cl [] (ps @ [(ct, [])]) = Some cl'
            \<and> (\<forall>p \<in> set ps. snd p \<noteq> [])
            \<and> (\<forall>u \<in> set (concat (map fst ps) @ ct). \<not> Before (IssuedDate u) zero_time) \<longrightarrow>
            findNew_issued List cl st
              = Some (Inr (fresh [] (concat (map fst ps) @ ct)), cl',
                      add_all (concat (map fst ps) @ ct) st))"
proof -
  have m: "fst (maxIssued st) = Inr (latest ds)"
    using maxIssued_latest [OF assms] by simp
  note u = findNew_issued_working [OF assms(1) m, of List cl]
  have a: "\<not> IsZero (latest ds) \<longrightarrow>
            findNew_issued List cl st
              = paging List IssuedDate (AddDate_months (latest ds) (- 1)) [] [] cl st"
    using u by simp
  have b: "ds = [] \<longrightarrow> findNew_issued List cl st = paging List IssuedDate zero_time [] [] cl st"
    using u by (simp add: latest_def)
  have c: "ds = [] \<and> follow List cl [] (ps @ [(ct, [])]) = Some cl'
            \<and> (\<forall>p \<in> set ps. snd p \<noteq> [])
            \<and> (\<forall>u \<in> set (concat (map fst ps) @ ct). \<not> Before (IssuedDate u) zero_time) \<longrightarrow>
            findNew_issued List cl st
              = Some (Inr (fresh [] (concat (map fst ps) @ ct)), cl',
                      add_all (concat (map fst ps) @ ct) st)"
  proof (intro impI, elim conjE)
    assume d: "ds = []" and f: "follow List cl [] (ps @ [(ct, [])]) = Some cl'"
      and n: "\<forall>p \<in> set ps. snd p \<noteq> []"
      and e: "\<forall>u \<in> set (concat (map fst ps) @ ct). \<not> Before (IssuedDate u) zero_time"
    from d assms(2) have i: "ids st = []"
      by (simp add: ids_def)
    have k: "calm (length (concat (map fst ps) @ ct)) st"
      by (rule calm_working [OF assms(1)])
    from b d paging_all_pages [OF k f n e, of "[]"] i
    show "findNew_issued List cl st
            = Some (Inr (fresh [] (concat (map fst ps) @ ct)), cl',
                    add_all (concat (map fst ps) @ ct) st)"
      by simp
  qed
  from a b c show ?thesis by blast
qed

theorem findNew_issued_cutoff_witness:
  "findNew_issued script_List three_pages store_T1
     = paging script_List IssuedDate (day_at 2023 12 10) [] [] three_pages store_T1
   \<and> findNew_issued script_List three_pages empty_store
     = Some (Inr [N1, N2, N3, N4, N5, N6], [], add_all [N1, N2, N3, N4, N5, N6] empty_store)"
proof -
  have f1: "faults store_T1 = []"
    by (simp add: store_T1_def empty_store_def)
  have c1: "map col_issued (tenders store_T1) = map Format_date [day_at 2024 1 10]"
    by (simp add: store_T1_def row_of_def T1_def)
  have d1: "\<forall>x \<in> set [day_at 2024 1 10]. four_digit_date x \<and> nsec x = 0"
    by (simp add: four_digit_date_def valid_time_def daysIn_def day_at_def)
  have z1: "\<not> IsZero (latest [day_at 2024 1 10])"
    by (simp add: latest_def IsZero_def day_at_def)
  have a1: "AddDate_months (latest [day_at 2024 1 10]) (- 1) = day_at 2023 12 10"
    by (simp add: latest_def AddDate_months_def day_at_def daysIn_def isLeap_def)
  have A: "findNew_issued script_List three_pages store_T1
           = paging script_List IssuedDate (day_at 2023 12 10) [] [] three_pages store_T1"
    using findNew_issued_cutoff [OF f1 c1 d1, where List = script_List and cl = three_pages] z1 a1
    by simp
  have f0: "faults empty_store = []"
    by (simp add: empty_store_def)
  have c0: "map col_issued (tenders empty_store) = map Format_date []"
    by (simp add: empty_store_def)
  have d0: "\<forall>x \<in> set []. four_digit_date x \<and> nsec x = 0"
    by simp
  have fo: "follow script_List three_pages [] ([([N1, N2], ''2''), ([N3, N4, N5], ''3'')] @ [([N6], [])])
             = Some []"
    by (simp add: script_List_def three_pages_def)
  have n: "\<forall>p \<in> set [([N1, N2], ''2''), ([N3, N4, N5], ''3'')]. snd p \<noteq> []"
    by simp
  have e: "\<forall>u \<in> set (concat (map fst [([N1, N2], ''2''), ([N3, N4, N5], ''3'')]) @ [N6]).
             \<not> Before (IssuedDate u) zero_time"
    by (simp add: N1_def N2_def N3_def N4_def N5_def N6_def notice_def day_at_def Before_def
        zero_time_def)
  have i: "fresh [] [N1, N2, N3, N4, N5, N6] = [N1, N2, N3, N4, N5, N6]"
    by (simp add: N1_def N2_def N3_def N4_def N5_def N6_def notice_def)
  have "findNew_issued script_List three_pages empty_store
           = Some (Inr (fresh [] (concat (map fst [([N1, N2], ''2''), ([N3, N4, N5], ''3'')]) @ [N6])), [],
                   add_all (concat (map fst [([N1, N2], ''2''), ([N3, N4, N5], ''3'')]) @ [N6]) empty_store)"
    using findNew_issued_cutoff [OF f0 c0 d0, where List = script_List and cl = three_pages
        and ps = "[([N1, N2], ''2''), ([N3, N4, N5], ''3'')]" and ct = "[N6]" and cl' = "[]"]
      fo n e
    by blast
  then have B: "findNew_issued script_List three_pages empty_store
           = Some (Inr [N1, N2, N3, N4, N5, N6], [], add_all [N1, N2, N3, N4, N5, N6] empty_store)"
    using i by simp
  from A B show ?thesis by simp
qed

text \<open>
  C5, as the claim states it, fails on a first run: the cut-off is not the present time but
  four months before it. On June 15, 2024, N1 closes on April 10, before "now"; the driver
  does not stop at it and goes on to store N2.
\<close>

theorem findNew_observed_first_run_counterexample:
  "tenders empty_store = []
   \<and> Before (CloseDate N1) (now_at empty_store (ticks empty_store))
   \<and> findNew_observed script_List [Inr ([N1, N2], [])] empty_store
       = Some (Inr [N1, N2], [], add_all [N1, N2] (empty_store\<lparr>ticks := 1\<rparr>))"
proof -
  let ?st = "empty_store\<lparr>ticks := 1\<rparr>"
  have e: "faults empty_store = []" "tenders empty_store = []"
    by (simp_all add: empty_store_def)
  have m: "maxObserved empty_store = (Inr zero_time, empty_store)"
    by (rule maxObserved_empty [OF e])
  have c: "AddDate_months (now_at empty_store (ticks empty_store)) (- 4) = day_at 2024 2 15"
    by (simp add: empty_store_def AddDate_months_def day_at_def daysIn_def isLeap_def)
  have l: "script_List [Inr ([N1, N2], [])] [] = (Inr ([N1, N2], []), [])"
    by (simp add: script_List_def)
  have k: "calm (length [N1, N2]) ?st"
    by (simp add: calm_def empty_store_def)
  have n: "\<forall>u \<in> set [N1, N2]. \<not> Before (CloseDate u) (day_at 2024 2 15)"
    by (simp add: N1_def N2_def notice_def day_at_def Before_def)
  have i: "fresh (ids ?st) [N1, N2] = [N1, N2]"
    by (simp add: ids_def empty_store_def N1_def N2_def notice_def)
  have r: "paging script_List CloseDate (day_at 2024 2 15) [] [] [Inr ([N1, N2], [])] ?st
           = Some (Inr [N1, N2], [], add_all [N1, N2] ?st)"
    using paging_last_page [where ct = "[N1, N2]" and st = ?st and List = script_List
        and cl = "[Inr ([N1, N2], [])]" and token = "[]" and ?cl1.0 = "[]" and rel = CloseDate
        and start = "day_at 2024 2 15" and nt = "[]"] k l n i
    by simp
  have b: "Before (CloseDate N1) (now_at empty_store (ticks empty_store))"
    by (simp add: empty_store_def N1_def notice_def day_at_def Before_def)
  have t: "ticks empty_store = 0"
    by (simp add: empty_store_def)
  have "findNew_observed script_List [Inr ([N1, N2], [])] empty_store
        = paging script_List CloseDate (day_at 2024 2 15) [] [] [Inr ([N1, N2], [])] ?st"
    using c t by (simp add: findNew_observed_def m time_Now_def)
  with r e(2) b show ?thesis by simp
qed

lemma maxObserved_working_snd: "faults st = [] \<Longrightarrow> snd (maxObserved st) = st"
  by (simp add: maxObserved_def max_column_working)

lemma ids_ticks [simp]: "ids (st\<lparr>ticks := n\<rparr>) = ids st"
  by (simp add: ids_def)

lemma findNew_observed_working:
  assumes "faults st = []" and "fst (maxObserved st) = Inr mx"
  shows "findNew_observed List cl st
       = paging List CloseDate
           (AddDate_months (if IsZero mx then now_at st (ticks st) else mx) (- 4)) [] [] cl
           (if IsZero mx then st\<lparr>ticks := Suc (ticks st)\<rparr> else st)"
proof -
  from assms have "maxObserved st = (Inr mx, st)"
    using maxObserved_working_snd [OF assms(1)] by (cases "maxObserved st") simp
  then show ?thesis
    by (simp add: findNew_observed_def time_Now_def)
qed

text \<open>
  With \<open>maxObserved\<close> as it is written, a table whose rows \<open>add\<close> wrote is treated as the
  empty table is: the cut-off is the present time minus four months.
\<close>

lemma findNew_observed_after_add:
  assumes "faults st = []"
    and "\<forall>r \<in> set (tenders st). \<exists>t. col_first_observed r = Format_sqlite t"
  shows "findNew_observed List cl st
       = paging List CloseDate (AddDate_months (now_at st (ticks st)) (- 4)) [] [] cl
           (st\<lparr>ticks := Suc (ticks st)\<rparr>)"
  using findNew_observed_working [OF assms(1), of zero_time List cl] maxObserved_zero [OF assms]
  by simp

text \<open>
  C5 (amended): the first-observed policy, on every run over a database that answers,
  whatever the table holds. \<open>mx\<close> is what the watermark query returns. The cut-off is
  \<open>mx\<close> minus four months when \<open>mx\<close> is not the zero time, and the present time minus four
  months when it is, which is the case when the table is empty. The early exit compares
  the close date of each record with this cut-off and nothing else: when \<open>t\<close> is the first
  record of the listing that closes before the cut-off, the run ends with \<open>t\<close>, and when
  no record of a listing closes before it, the run takes every page; the issue dates of
  the records play no part.
\<close>

theorem findNew_observed_cutoff:
  assumes "faults st = []" and "fst (maxObserved st) = Inr mx"
  defines "cutoff \<equiv> AddDate_months (if IsZero mx then now_at st (ticks st) else mx) (- 4)"
    and "st1 \<equiv> (if IsZero mx then st\<lparr>ticks := Suc (ticks st)\<rparr> else st)"
  shows "(tenders st = [] \<longrightarrow> mx = zero_time)
   \<and> findNew_observed List cl st = paging List CloseDate cutoff [] [] cl st1
   \<and> (follow List cl [] (ps @ [(pre @ t # post, nx)]) = Some cl'
        \<and> (\<forall>p \<in> set ps. snd p \<noteq> [])
        \<and> (\<forall>u \<in> set (concat (map fst ps) @ pre). \<not> Before (CloseDate u) cutoff)
        \<and> Before (CloseDate t) cutoff \<longrightarrow>
      findNew_observed List cl st
        = Some (Inr (fresh (ids st) (concat (map fst ps) @ pre @ [t])), cl',
                add_all (concat (map fst ps) @ pre @ [t]) st1))
   \<and> (follow List cl [] (qs @ [(ct, [])]) = Some cl''
        \<and> (\<forall>p \<in> set qs. snd p \<noteq> [])
        \<and> (\<forall>u \<in> set (concat (map fst qs) @ ct). \<not> Before (CloseDate u) cutoff) \<longrightarrow>
      findNew_observed List cl st
        = Some (Inr (fresh (ids st) (concat (map fst qs) @ ct)), cl'',
                add_all (concat (map fst qs) @ ct) st1))"
proof -
  have eq: "findNew_observed List cl st = paging List CloseDate cutoff [] [] cl st1"
    unfolding cutoff_def st1_def using assms(1,2) by (rule findNew_observed_working)
  have f: "faults st1 = []"
    using assms(1) by (simp add: st1_def)
  have i: "ids st1 = ids st"
    by (simp add: st1_def)
  have z: "tenders st = [] \<longrightarrow> mx = zero_time"
    using maxObserved_empty [OF assms(1)] assms(2) by auto
  have early: "findNew_observed List cl st
        = Some (Inr (fresh (ids st) (concat (map fst ps) @ pre @ [t])), cl',
                add_all (concat (map fst ps) @ pre @ [t]) st1)"
    if "follow List cl [] (ps @ [(pre @ t # post, nx)]) = Some cl'"
      and "\<forall>p \<in> set ps. snd p \<noteq> []"
      and "\<forall>u \<in> set (concat (map fst ps) @ pre). \<not> Before (CloseDate u) cutoff"
      and "Before (CloseDate t) cutoff"
    using paging_early_exit [OF calm_working [OF f] that, of "[]"] eq i by simp
  have whole: "findNew_observed List cl st
        = Some (Inr (fresh (ids st) (concat (map fst qs) @ ct)), cl'',
                add_all (concat (map fst qs) @ ct) st1)"
    if "follow List cl [] (qs @ [(ct, [])]) = Some cl''"
      and "\<forall>p \<in> set qs. snd p \<noteq> []"
      and "\<forall>u \<in> set (concat (map fst qs) @ ct). \<not> Before (CloseDate u) cutoff"
    using paging_all_pages [OF calm_working [OF f] that, of "[]"] eq i by simp
  from z eq early whole show ?thesis
    by blast
qed

theorem findNew_observed_cutoff_witness:
  "tenders store_T1 \<noteq> []
   \<and> Before (IssuedDate N4) (day_at 2024 2 15) \<and> \<not> Before (CloseDate N4) (day_at 2024 2 15)
   \<and> findNew_observed script_List three_pages store_T1
       = Some (Inr [N1, N2, N3, N4, N5], [Inr ([N6], [])],
               add_all [N1, N2, N3, N4, N5] (store_T1\<lparr>ticks := 1\<rparr>))
   \<and> findNew_observed script_List [Inr ([N1, N2], [])] empty_store
       = Some (Inr [N1, N2], [], add_all [N1, N2] (empty_store\<lparr>ticks := 1\<rparr>))"
proof -
  note dates = N1_def N2_def N3_def N4_def N5_def notice_def day_at_def Before_def
  have w: "faults store_T1 = []" "ticks store_T1 = 0"
    by (simp_all add: store_T1_def empty_store_def)
  have "\<forall>r \<in> set (tenders store_T1). \<exists>u. col_first_observed r = Format_sqlite u"
    by (auto simp add: store_T1_def row_of_def)
  with w(1) have m: "fst (maxObserved store_T1) = Inr zero_time"
    by (simp add: maxObserved_zero)
  have c: "AddDate_months (now_at store_T1 (ticks store_T1)) (- 4) = day_at 2024 2 15"
    by (simp add: store_T1_def empty_store_def AddDate_months_def day_at_def daysIn_def isLeap_def)
  have f: "follow script_List three_pages [] ([([N1, N2], ''2'')] @ [([N3, N4] @ N5 # [], ''3'')])
             = Some [Inr ([N6], [])]"
    by (simp add: script_List_def three_pages_def)
  have n: "\<forall>p \<in> set [([N1, N2], ''2'')]. snd p \<noteq> []"
    by simp
  have e: "\<forall>u \<in> set (concat (map fst [([N1, N2], ''2'')]) @ [N3, N4]).
             \<not> Before (CloseDate u) (day_at 2024 2 15)"
    by (simp add: dates)
  have b: "Before (CloseDate N5) (day_at 2024 2 15)"
    by (simp add: dates)
  have i: "fresh (ids store_T1) [N1, N2, N3, N4, N5] = [N1, N2, N3, N4, N5]"
    by (simp add: ids_def store_T1_def empty_store_def row_of_def T1_def dates)
  have A: "findNew_observed script_List three_pages store_T1
       = Some (Inr [N1, N2, N3, N4, N5], [Inr ([N6], [])],
               add_all [N1, N2, N3, N4, N5] (store_T1\<lparr>ticks := 1\<rparr>))"
    using findNew_observed_cutoff [OF w(1) m, where List = script_List and cl = three_pages
        and ps = "[([N1, N2], ''2'')]" and pre = "[N3, N4]" and t = N5 and post = "[]"
        and nx = "''3''" and cl' = "[Inr ([N6], [])]", THEN conjunct2, THEN conjunct2,
        THEN conjunct1, THEN mp]
      f n e b i c w(2)
    by simp
  have v: "faults empty_store = []" "ticks empty_store = 0" "tenders empty_store = []"
    by (simp_all add: empty_store_def)
  have m0: "fst (maxObserved empty_store) = Inr zero_time"
    using maxObserved_empty [OF v(1) v(3)] by simp
  have c0: "AddDate_months (now_at empty_store (ticks empty_store)) (- 4) = day_at 2024 2 15"
    by (simp add: empty_store_def AddDate_months_def day_at_def daysIn_def isLeap_def)
  have f0: "follow script_List [Inr ([N1, N2], [])] [] ([] @ [([N1, N2], [])]) = Some []"
    by (simp add: script_List_def)
  have e0: "\<forall>u \<in> set (concat (map fst []) @ [N1, N2]). \<not> Before (CloseDate u) (day_at 2024 2 15)"
    by (simp add: dates)
  have i0: "fresh (ids empty_store) [N1, N2] = [N1, N2]"
    by (simp add: ids_def empty_store_def dates)
  have B: "findNew_observed script_List [Inr ([N1, N2], [])] empty_store
       = Some (Inr [N1, N2], [], add_all [N1, N2] (empty_store\<lparr>ticks := 1\<rparr>))"
    using findNew_observed_cutoff [OF v(1) m0, where List = script_List
        and cl = "[Inr ([N1, N2], [])]" and qs = "[]" and ct = "[N1, N2]" and cl'' = "[]",
        THEN conjunct2, THEN conjunct2, THEN conjunct2, THEN mp]
      f0 e0 i0 c0 v(2)
    by simp
  have C: "tenders store_T1 \<noteq> []"
    by (simp add: store_T1_def)
  have D: "Before (IssuedDate N4) (day_at 2024 2 15) \<and> \<not> Before (CloseDate N4) (day_at 2024 2 15)"
    by (simp add: dates)
  from A B C D show ?thesis by blast
qed

section \<open>Errors end the run and keep the rows\<close>

lemma findNew_query_fault:
  assumes "faults st = f # fs" and "f \<noteq> NoFault"
  shows "findNew_issued List cl st = Some (Inl QueryErr, cl, st\<lparr>faults := fs\<rparr>)"
    and "findNew_observed List cl st = Some (Inl QueryErr, cl, st\<lparr>faults := fs\<rparr>)"
  using max_column_fault [OF assms]
  by (simp_all add: findNew_issued_def findNew_observed_def maxIssued_def maxObserved_def)

lemma max_column_store:
  assumes "max_column col st = (r, st1)"
  shows "tenders st1 = tenders st" and "faults st1 = drop 1 (faults st)"
  using assms
  by (auto simp add: max_column_def QueryRow_max_def next_fault_def
      split: list.splits option.splits if_splits)

lemma add_result_ids:
  assumes "add t st = (Inr isNew, st1)"
  shows "ids st1 = (if isNew then ids st @ [ID t] else ids st)"
  using assms
  by (auto simp add: add_def Exec_insert_def next_fault_def time_Now_def Let_def ids_def
      split: list.splits if_splits)

lemma add_distinct: "distinct (ids st) \<Longrightarrow> distinct (ids (snd (add t st)))"
  by (auto simp add: add_def Exec_insert_def next_fault_def time_Now_def Let_def ids_def
      split: list.splits if_splits)

lemma add_working_faults: "faults st = [] \<Longrightarrow> \<exists>b st1. add t st = (Inr b, st1) \<and> faults st1 = []"
  by (auto simp add: add_def Exec_insert_def next_fault_def time_Now_def Let_def)

text \<open>What a page that does not fail adds to the table is what it adds to the output.\<close>

lemma range_page_result_ids:
  assumes "range_page rel start ct nt st = (fl, st')"
    and "fl = BreakOuter nt1 \<or> fl = PageDone nt1"
  shows "\<exists>new. nt1 = nt @ new \<and> ids st' = ids st @ map ID new"
  using assms
proof (induction ct arbitrary: nt st)
  case Nil
  then show ?case by auto
next
  case (Cons t ct)
  obtain r st1 where a: "add t st = (r, st1)"
    by (cases "add t st")
  show ?case
  proof (cases r)
    case (Inl e)
    with a Cons.prems show ?thesis by auto
  next
    case (Inr isNew)
    note i = add_result_ids [OF a [unfolded Inr]]
    show ?thesis
    proof (cases "Before (rel t) start")
      case True
      with Inr a Cons.prems i show ?thesis
        by (cases isNew) auto
    next
      case False
      with Inr a Cons.prems
      have "range_page rel start ct (if isNew then nt @ [t] else nt) st1 = (fl, st')"
        by (simp add: Let_def)
      from Cons.IH [OF this Cons.prems(2)] obtain new
        where n: "nt1 = (if isNew then nt @ [t] else nt) @ new" "ids st' = ids st1 @ map ID new"
        by blast
      show ?thesis
      proof (cases isNew)
        case True
        with n i have "nt1 = nt @ (t # new) \<and> ids st' = ids st @ map ID (t # new)"
          by simp
        then show ?thesis by blast
      next
        case False
        with n i have "nt1 = nt @ new \<and> ids st' = ids st @ map ID new"
          by simp
        then show ?thesis by blast
      qed
    qed
  qed
qed

lemma range_page_distinct:
  "range_page rel start ct nt st = (fl, st') \<Longrightarrow> distinct (ids st) \<Longrightarrow> distinct (ids st')"
proof (induction ct arbitrary: nt st)
  case Nil
  then show ?case by simp
next
  case (Cons t ct)
  obtain r st1 where a: "add t st = (r, st1)"
    by (cases "add t st")
  from add_distinct [OF Cons.prems(2), of t] a have d: "distinct (ids st1)"
    by simp
  show ?case
  proof (cases r)
    case (Inl e)
    with a Cons.prems d show ?thesis by auto
  next
    case (Inr isNew)
    show ?thesis
    proof (cases "Before (rel t) start")
      case True
      with Inr a Cons.prems d show ?thesis by (auto simp add: Let_def)
    next
      case False
      with Inr a Cons.prems
      have "range_page rel start ct (if isNew then nt @ [t] else nt) st1 = (fl, st')"
        by (simp add: Let_def)
      from Cons.IH [OF this d] show ?thesis .
    qed
  qed
qed

lemma range_page_working:
  "faults st = [] \<Longrightarrow>
   \<exists>nt1 st1. (range_page rel start ct nt st = (BreakOuter nt1, st1)
              \<or> range_page rel start ct nt st = (PageDone nt1, st1)) \<and> faults st1 = []"
proof (induction ct arbitrary: nt st)
  case Nil
  then show ?case by simp
next
  case (Cons t ct)
  from add_working_faults [OF Cons.prems, of t] obtain b st1
    where a: "add t st = (Inr b, st1)" "faults st1 = []"
    by blast
  show ?case
  proof (cases "Before (rel t) start")
    case True
    with a show ?thesis by (simp add: Let_def)
  next
    case False
    with a Cons.IH [OF a(2), of "if b then nt @ [t] else nt"] show ?thesis
      by (simp add: Let_def)
  qed
qed

text \<open>
  In every run of the loop that returns a list, the list grew by the records whose rows the
  table grew by; and in every run that returns, no id comes to stand twice in the table.
\<close>

lemma paging_result_ids_fst:
  assumes run: "paging List0 rel0 start0 token0 nt0 cl0 st0 = Some y0"
  shows "\<forall>out. fst y0 = Inr out \<longrightarrow>
           (\<exists>new. out = nt0 @ new \<and> ids (snd (snd y0)) = ids st0 @ map ID new)"
proof (rule paging.raw_induct
    [where P = "\<lambda>List rel start token nt cl st y. \<forall>out. fst y = Inr out \<longrightarrow>
           (\<exists>new. out = nt @ new \<and> ids (snd (snd y)) = ids st @ map ID new)",
     OF _ run], goal_cases)
  case (1 loop List rel start token nt cl st y)
  note IH = "1"(1) and prems = "1"(2)
  show ?case
  proof (cases "List cl token")
    case (Pair res cl1)
    show ?thesis
    proof (cases res)
      case (Inl e)
      with Pair prems show ?thesis by auto
    next
      case (Inr pg)
      obtain ct nextToken where pg: "pg = (ct, nextToken)" by (cases pg)
      obtain fl st1 where rp: "range_page rel start ct nt st = (fl, st1)"
        by (cases "range_page rel start ct nt st")
      show ?thesis
      proof (cases fl)
        case (Failed e)
        with Pair Inr pg rp prems show ?thesis by auto
      next
        case (BreakOuter nt1)
        from range_page_result_ids [OF rp, of nt1] BreakOuter
        have "\<exists>new. nt1 = nt @ new \<and> ids st1 = ids st @ map ID new"
          by simp
        with BreakOuter Pair Inr pg rp prems show ?thesis by auto
      next
        case (PageDone nt1)
        from range_page_result_ids [OF rp, of nt1] PageDone
        obtain new where n: "nt1 = nt @ new" "ids st1 = ids st @ map ID new"
          by auto
        show ?thesis
        proof (cases "nextToken = []")
          case True
          with PageDone Pair Inr pg rp prems n show ?thesis by auto
        next
          case False
          with PageDone Pair Inr pg rp prems
          have "loop List rel start nextToken nt1 cl1 st1 = Some y"
            by simp
          from IH [OF this] n show ?thesis
            by auto
        qed
      qed
    qed
  qed
qed

lemma paging_result_ids:
  "paging List rel start token [] cl st = Some (Inr out, cl', st') \<Longrightarrow> ids st' = ids st @ map ID out"
  using paging_result_ids_fst [of List rel start token "[]" cl st "(Inr out, cl', st')"] by simp

lemma paging_distinct_snd:
  assumes run: "paging List0 rel0 start0 token0 nt0 cl0 st0 = Some y0"
  shows "distinct (ids st0) \<longrightarrow> distinct (ids (snd (snd y0)))"
proof (rule paging.raw_induct
    [where P = "\<lambda>List rel start token nt cl st y.
                  distinct (ids st) \<longrightarrow> distinct (ids (snd (snd y)))",
     OF _ run], goal_cases)
  case (1 loop List rel start token nt cl st y)
  note IH = "1"(1) and prems = "1"(2)
  show ?case
  proof (cases "List cl token")
    case (Pair res cl1)
    show ?thesis
    proof (cases res)
      case (Inl e)
      with Pair prems show ?thesis by auto
    next
      case (Inr pg)
      obtain ct nextToken where pg: "pg = (ct, nextToken)" by (cases pg)
      obtain fl st1 where rp: "range_page rel start ct nt st = (fl, st1)"
        by (cases "range_page rel start ct nt st")
      have d: "distinct (ids st) \<longrightarrow> distinct (ids st1)"
        using range_page_distinct [OF rp] by blast
      show ?thesis
      proof (cases fl)
        case (Failed e)
        with Pair Inr pg rp prems d show ?thesis by auto
      next
        case (BreakOuter nt1)
        with Pair Inr pg rp prems d show ?thesis by auto
      next
        case (PageDone nt1)
        show ?thesis
        proof (cases "nextToken = []")
          case True
          with PageDone Pair Inr pg rp prems d show ?thesis by auto
        next
          case False
          with PageDone Pair Inr pg rp prems
          have "loop List rel start nextToken nt1 cl1 st1 = Some y"
            by simp
          from IH [OF this] d show ?thesis
            by blast
        qed
      qed
    qed
  qed
qed

lemma paging_distinct:
  "paging List rel start token nt cl st = Some (r, cl', st') \<Longrightarrow> distinct (ids st) \<Longrightarrow>
   distinct (ids st')"
  using paging_distinct_snd [of List rel start token nt cl st "(r, cl', st')"] by simp

text \<open>
  Over a database that answers and a listing that ends, the loop returns a list, whatever
  the table holds: a record that is already stored is no error.
\<close>

lemma paging_returns:
  assumes "faults st = []"
    and "follow List cl token (ps @ [(ct, [])]) = Some cl'"
    and "\<forall>p \<in> set ps. snd p \<noteq> []"
  shows "\<exists>out cl'' st''. paging List rel start token nt cl st = Some (Inr out, cl'', st'')"
  using assms
proof (induction ps arbitrary: cl token nt st)
  case Nil
  then obtain cl1 where l: "List cl token = (Inr (ct, []), cl1)"
    by (auto split: prod.splits sum.splits if_splits)
  from range_page_working [OF Nil.prems(1), of rel start ct nt] l show ?case
    by (subst paging.simps) auto
next
  case (Cons p ps)
  obtain pt nx where p: "p = (pt, nx)" by (cases p)
  from Cons.prems(2) p obtain cl1 where l: "List cl token = (Inr (pt, nx), cl1)"
    and f: "follow List cl1 nx (ps @ [(ct, [])]) = Some cl'"
    by (auto split: prod.splits sum.splits if_splits)
  from Cons.prems(3) p have nx: "nx \<noteq> []" and rest: "\<forall>p \<in> set ps. snd p \<noteq> []"
    by auto
  from range_page_working [OF Cons.prems(1), of rel start pt nt] obtain nt1 st1
    where r: "range_page rel start pt nt st = (BreakOuter nt1, st1)
              \<or> range_page rel start pt nt st = (PageDone nt1, st1)"
      and w: "faults st1 = []"
    by blast
  from r show ?case
  proof
    assume "range_page rel start pt nt st = (BreakOuter nt1, st1)"
    with l show ?thesis
      by (subst paging.simps) simp
  next
    assume d: "range_page rel start pt nt st = (PageDone nt1, st1)"
    from Cons.IH [OF w f rest, of nt1] obtain out cl'' st''
      where "paging List rel start nx nt1 cl1 st1 = Some (Inr out, cl'', st'')"
      by blast
    with l d nx show ?thesis
      by (subst paging.simps) simp
  qed
qed

text \<open>The two drivers past the watermark query: the loop each of them enters.\<close>

lemma findNew_issued_loop:
  "maxIssued st = (Inr mx, st1) \<Longrightarrow>
   findNew_issued List cl st
     = paging List IssuedDate (if \<not> IsZero mx then AddDate_months mx (- 1) else mx) [] [] cl st1"
  by (simp add: findNew_issued_def)

lemma findNew_observed_loop:
  "maxObserved st = (Inr mx, st1) \<Longrightarrow>
   findNew_observed List cl st
     = paging List CloseDate
         (AddDate_months (if IsZero mx then now_at st1 (ticks st1) else mx) (- 4)) [] [] cl
         (if IsZero mx then st1\<lparr>ticks := Suc (ticks st1)\<rparr> else st1)"
  by (simp add: findNew_observed_def time_Now_def)

lemma findNew_issued_run:
  assumes "findNew_issued List cl st = Some (r, cl', st')"
  shows "prefix (tenders st) (tenders st')"
    and "distinct (ids st) \<Longrightarrow> distinct (ids st')"
    and "r = Inr out \<Longrightarrow> ids st' = ids st @ map ID out"
proof -
  obtain res st1 where m: "maxIssued st = (res, st1)"
    by (cases "maxIssued st")
  from max_column_store(1) [OF m [unfolded maxIssued_def]] have t: "tenders st1 = tenders st" .
  then have i: "ids st1 = ids st"
    by (simp add: ids_def)
  have "prefix (tenders st) (tenders st')
        \<and> (distinct (ids st) \<longrightarrow> distinct (ids st'))
        \<and> (r = Inr out \<longrightarrow> ids st' = ids st @ map ID out)"
  proof (cases res)
    case (Inl e)
    with m assms t i show ?thesis
      by (auto simp add: findNew_issued_def)
  next
    case (Inr mx)
    with m assms obtain start
      where p: "paging List IssuedDate start [] [] cl st1 = Some (r, cl', st')"
      by (simp add: findNew_issued_loop)
    from paging_keeps_rows [OF p] paging_distinct [OF p] paging_result_ids [of List IssuedDate start "[]" cl st1 out cl' st'] p t i
    show ?thesis
      by auto
  qed
  then show "prefix (tenders st) (tenders st')"
    and "distinct (ids st) \<Longrightarrow> distinct (ids st')"
    and "r = Inr out \<Longrightarrow> ids st' = ids st @ map ID out"
    by blast+
qed

lemma findNew_observed_run:
  assumes "findNew_observed List cl st = Some (r, cl', st')"
  shows "prefix (tenders st) (tenders st')"
    and "distinct (ids st) \<Longrightarrow> distinct (ids st')"
    and "r = Inr out \<Longrightarrow> ids st' = ids st @ map ID out"
proof -
  obtain res st1 where m: "maxObserved st = (res, st1)"
    by (cases "maxObserved st")
  from max_column_store(1) [OF m [unfolded maxObserved_def]] have t: "tenders st1 = tenders st" .
  then have i: "ids st1 = ids st"
    by (simp add: ids_def)
  have "prefix (tenders st) (tenders st')
        \<and> (distinct (ids st) \<longrightarrow> distinct (ids st'))
        \<and> (r = Inr out \<longrightarrow> ids st' = ids st @ map ID out)"
  proof (cases res)
    case (Inl e)
    with m assms t i show ?thesis
      by (auto simp add: findNew_observed_def)
  next
    case (Inr mx)
    with m assms obtain start st2
      where p: "paging List CloseDate start [] [] cl st2 = Some (r, cl', st')"
        and s: "st2 = (if IsZero mx then st1\<lparr>ticks := Suc (ticks st1)\<rparr> else st1)"
      by (simp add: findNew_observed_loop)
    from s t have t2: "tenders st2 = tenders st" and i2: "ids st2 = ids st"
      by (simp_all add: ids_def)
    from paging_keeps_rows [OF p] paging_distinct [OF p] paging_result_ids [of List CloseDate start "[]" cl st2 out cl' st'] p t2 i2
    show ?thesis
      by auto
  qed
  then show "prefix (tenders st) (tenders st')"
    and "distinct (ids st) \<Longrightarrow> distinct (ids st')"
    and "r = Inr out \<Longrightarrow> ids st' = ids st @ map ID out"
    by blast+
qed

lemma findNew_issued_returns:
  assumes "faults st = []"
    and "follow List cl [] (ps @ [(ct, [])]) = Some cl'"
    and "\<forall>p \<in> set ps. snd p \<noteq> []"
  shows "\<exists>out cl'' st''. findNew_issued List cl st = Some (Inr out, cl'', st'')"
proof -
  obtain mx where m: "maxIssued st = (Inr mx, st)"
    using assms(1) by (simp add: maxIssued_def max_column_working)
  show ?thesis
    using paging_returns [OF assms] by (simp add: findNew_issued_loop [OF m])
qed

lemma findNew_observed_returns:
  assumes "faults st = []"
    and "follow List cl [] (ps @ [(ct, [])]) = Some cl'"
    and "\<forall>p \<in> set ps. snd p \<noteq> []"
  shows "\<exists>out cl'' st''. findNew_observed List cl st = Some (Inr out, cl'', st'')"
proof -
  obtain mx where m: "maxObserved st = (Inr mx, st)"
    using assms(1) by (simp add: maxObserved_def max_column_working)
  let ?st2 = "if IsZero mx then st\<lparr>ticks := Suc (ticks st)\<rparr> else st"
  have "faults ?st2 = []"
    using assms(1) by simp
  from paging_returns [OF this assms(2,3)] show ?thesis
    by (simp add: findNew_observed_loop [OF m])
qed

text \<open>
  C7: whatever fails, \<open>findNew\<close> returns that error and no list (the result is an error
  or a list, never both), and the rows inserted before are still in the table. \<open>findNew\<close>
  is either of the two drivers.

  First, the query for the watermark fails: the error is returned before any call of
  \<open>List\<close>, and the table is untouched.

  Otherwise the query returns \<open>mx\<close>, and the driver enters its loop with the date \<open>rel\<close>,
  the cut-off \<open>start\<close> and the store \<open>st2\<close> of its policy. Second, a call of \<open>List\<close> fails
  (for whatever reason of the client: session, transport, status, payload, date, empty
  buffer) after the pages \<open>ps\<close>: \<open>findNew\<close> returns its error, and the table holds every
  record of those pages. Third, an insert fails at the record \<open>t\<close>: \<open>findNew\<close> returns
  the error, and the table holds every row it held just before, those of the records
  listed before \<open>t\<close> among them.

  Fourth, every run that returns, with an error or not, leaves a table that begins with
  the table it started from and in which no id stands twice; a list that is returned
  holds exactly the records whose rows the run added.

  Last, the run after a failed run. The failed run leaves the store \<open>st3\<close>; the database
  answers again, and the source lists the pages \<open>rs\<close> and a last page, in which any of the
  records already stored may come again. Then the second run returns a list and not an
  error. It keeps every row of the failed run, adds no id a second time, and returns
  exactly the records whose rows it adds. The records stored by the failed run are
  therefore in the table and not in this list; and the cut-off of the second run is
  computed from the table the failed run left.
\<close>

theorem findNew_returns_the_error:
  "(faults st = f # fs \<and> f \<noteq> NoFault \<longrightarrow>
      findNew_issued List cl st = Some (Inl QueryErr, cl, st\<lparr>faults := fs\<rparr>)
      \<and> findNew_observed List cl st = Some (Inl QueryErr, cl, st\<lparr>faults := fs\<rparr>)
      \<and> tenders (st\<lparr>faults := fs\<rparr>) = tenders st)
   \<and> ((findNew = findNew_issued \<and> maxIssued st = (Inr mx, st1) \<and> rel = IssuedDate
         \<and> start = (if \<not> IsZero mx then AddDate_months mx (- 1) else mx) \<and> st2 = st1)
       \<or> (findNew = findNew_observed \<and> maxObserved st = (Inr mx, st1) \<and> rel = CloseDate
         \<and> start = AddDate_months (if IsZero mx then now_at st1 (ticks st1) else mx) (- 4)
         \<and> st2 = (if IsZero mx then st1\<lparr>ticks := Suc (ticks st1)\<rparr> else st1)) \<longrightarrow>
      (calm (length (concat (map fst ps))) st2 \<and> follow List cl [] ps = Some cl1
        \<and> (\<forall>p \<in> set ps. snd p \<noteq> [])
        \<and> (\<forall>u \<in> set (concat (map fst ps)). \<not> Before (rel u) start)
        \<and> List cl1 (last ([] # map snd ps)) = (Inl e, cl2) \<longrightarrow>
       findNew List cl st = Some (Inl e, cl2, add_all (concat (map fst ps)) st2)
       \<and> ids (add_all (concat (map fst ps)) st2)
           = ids st @ map ID (fresh (ids st) (concat (map fst ps))))
      \<and> (calm (length (concat (map fst qs) @ pre)) st2
          \<and> drop (length (concat (map fst qs) @ pre)) (faults st2) = g # gs \<and> g \<noteq> NoFault
          \<and> follow List cl [] (qs @ [(pre @ t # post, nx)]) = Some cl'
          \<and> (\<forall>p \<in> set qs. snd p \<noteq> [])
          \<and> (\<forall>u \<in> set (concat (map fst qs) @ pre). \<not> Before (rel u) start) \<longrightarrow>
         findNew List cl st
           = Some (Inl (if g = StmtFault then InsertErr else AffectedErr), cl',
                   snd (add t (add_all (concat (map fst qs) @ pre) st2)))
         \<and> prefix (tenders (add_all (concat (map fst qs) @ pre) st2))
              (tenders (snd (add t (add_all (concat (map fst qs) @ pre) st2))))
         \<and> ids (add_all (concat (map fst qs) @ pre) st2)
             = ids st @ map ID (fresh (ids st) (concat (map fst qs) @ pre))))
   \<and> (findNew = findNew_issued \<or> findNew = findNew_observed \<longrightarrow>
        (findNew List cl st = Some (r, cl3, st3) \<longrightarrow>
           prefix (tenders st) (tenders st3)
           \<and> (distinct (ids st) \<longrightarrow> distinct (ids st3))
           \<and> (\<forall>out. r = Inr out \<longrightarrow> ids st3 = ids st @ map ID out))
        \<and> (findNew List cl st = Some (Inl e1, cl3, st3) \<and> faults st3 = []
             \<and> follow List2 cl4 [] (rs @ [(ct, [])]) = Some cl5
             \<and> (\<forall>p \<in> set rs. snd p \<noteq> []) \<longrightarrow>
            (\<exists>out cl6 st6.
               findNew List2 cl4 st3 = Some (Inr out, cl6, st6)
               \<and> prefix (tenders st) (tenders st3) \<and> prefix (tenders st3) (tenders st6)
               \<and> ids st6 = ids st3 @ map ID out
               \<and> (distinct (ids st) \<longrightarrow> distinct (ids st6)))))"
proof (intro conjI)
  show "faults st = f # fs \<and> f \<noteq> NoFault \<longrightarrow>
      findNew_issued List cl st = Some (Inl QueryErr, cl, st\<lparr>faults := fs\<rparr>)
      \<and> findNew_observed List cl st = Some (Inl QueryErr, cl, st\<lparr>faults := fs\<rparr>)
      \<and> tenders (st\<lparr>faults := fs\<rparr>) = tenders st"
    using findNew_query_fault [of st f fs List cl] by simp
next
  show "(findNew = findNew_issued \<and> maxIssued st = (Inr mx, st1) \<and> rel = IssuedDate
         \<and> start = (if \<not> IsZero mx then AddDate_months mx (- 1) else mx) \<and> st2 = st1)
       \<or> (findNew = findNew_observed \<and> maxObserved st = (Inr mx, st1) \<and> rel = CloseDate
         \<and> start = AddDate_months (if IsZero mx then now_at st1 (ticks st1) else mx) (- 4)
         \<and> st2 = (if IsZero mx then st1\<lparr>ticks := Suc (ticks st1)\<rparr> else st1)) \<longrightarrow>
      (calm (length (concat (map fst ps))) st2 \<and> follow List cl [] ps = Some cl1
        \<and> (\<forall>p \<in> set ps. snd p \<noteq> [])
        \<and> (\<forall>u \<in> set (concat (map fst ps)). \<not> Before (rel u) start)
        \<and> List cl1 (last ([] # map snd ps)) = (Inl e, cl2) \<longrightarrow>
       findNew List cl st = Some (Inl e, cl2, add_all (concat (map fst ps)) st2)
       \<and> ids (add_all (concat (map fst ps)) st2)
           = ids st @ map ID (fresh (ids st) (concat (map fst ps))))
      \<and> (calm (length (concat (map fst qs) @ pre)) st2
          \<and> drop (length (concat (map fst qs) @ pre)) (faults st2) = g # gs \<and> g \<noteq> NoFault
          \<and> follow List cl [] (qs @ [(pre @ t # post, nx)]) = Some cl'
          \<and> (\<forall>p \<in> set qs. snd p \<noteq> [])
          \<and> (\<forall>u \<in> set (concat (map fst qs) @ pre). \<not> Before (rel u) start) \<longrightarrow>
         findNew List cl st
           = Some (Inl (if g = StmtFault then InsertErr else AffectedErr), cl',
                   snd (add t (add_all (concat (map fst qs) @ pre) st2)))
         \<and> prefix (tenders (add_all (concat (map fst qs) @ pre) st2))
              (tenders (snd (add t (add_all (concat (map fst qs) @ pre) st2))))
         \<and> ids (add_all (concat (map fst qs) @ pre) st2)
             = ids st @ map ID (fresh (ids st) (concat (map fst qs) @ pre)))"
  proof (intro impI)
    assume policy: "(findNew = findNew_issued \<and> maxIssued st = (Inr mx, st1) \<and> rel = IssuedDate
         \<and> start = (if \<not> IsZero mx then AddDate_months mx (- 1) else mx) \<and> st2 = st1)
       \<or> (findNew = findNew_observed \<and> maxObserved st = (Inr mx, st1) \<and> rel = CloseDate
         \<and> start = AddDate_months (if IsZero mx then now_at st1 (ticks st1) else mx) (- 4)
         \<and> st2 = (if IsZero mx then st1\<lparr>ticks := Suc (ticks st1)\<rparr> else st1))"
    have loop: "findNew List cl st = paging List rel start [] [] cl st2"
      using policy findNew_issued_loop [of st mx st1 List cl]
        findNew_observed_loop [of st mx st1 List cl]
      by auto
    have "tenders st2 = tenders st"
      using policy max_column_store(1) [of col_issued st "Inr mx" st1]
        max_column_store(1) [of col_first_observed st "Inr mx" st1]
      by (auto simp add: maxIssued_def maxObserved_def)
    then have i: "ids st2 = ids st"
      by (simp add: ids_def)
    have L: "findNew List cl st = Some (Inl e, cl2, add_all (concat (map fst ps)) st2)
       \<and> ids (add_all (concat (map fst ps)) st2)
           = ids st @ map ID (fresh (ids st) (concat (map fst ps)))"
      if "calm (length (concat (map fst ps))) st2" and "follow List cl [] ps = Some cl1"
        and "\<forall>p \<in> set ps. snd p \<noteq> []"
        and "\<forall>u \<in> set (concat (map fst ps)). \<not> Before (rel u) start"
        and "List cl1 (last ([] # map snd ps)) = (Inl e, cl2)"
      using paging_List_fails [OF that, of "[]"] add_all_ids [OF that(1)] loop i by simp
    have I: "findNew List cl st
           = Some (Inl (if g = StmtFault then InsertErr else AffectedErr), cl',
                   snd (add t (add_all (concat (map fst qs) @ pre) st2)))
         \<and> prefix (tenders (add_all (concat (map fst qs) @ pre) st2))
              (tenders (snd (add t (add_all (concat (map fst qs) @ pre) st2))))
         \<and> ids (add_all (concat (map fst qs) @ pre) st2)
             = ids st @ map ID (fresh (ids st) (concat (map fst qs) @ pre))"
      if "calm (length (concat (map fst qs) @ pre)) st2"
        and "drop (length (concat (map fst qs) @ pre)) (faults st2) = g # gs" and "g \<noteq> NoFault"
        and "follow List cl [] (qs @ [(pre @ t # post, nx)]) = Some cl'"
        and "\<forall>p \<in> set qs. snd p \<noteq> []"
        and "\<forall>u \<in> set (concat (map fst qs) @ pre). \<not> Before (rel u) start"
      using paging_add_fails [OF that, of "[]"] add_all_ids [OF that(1)] loop i
        add_keeps_rows [of "add_all (concat (map fst qs) @ pre) st2" t]
      by simp
    from L I show "(calm (length (concat (map fst ps))) st2 \<and> follow List cl [] ps = Some cl1
        \<and> (\<forall>p \<in> set ps. snd p \<noteq> [])
        \<and> (\<forall>u \<in> set (concat (map fst ps)). \<not> Before (rel u) start)
        \<and> List cl1 (last ([] # map snd ps)) = (Inl e, cl2) \<longrightarrow>
       findNew List cl st = Some (Inl e, cl2, add_all (concat (map fst ps)) st2)
       \<and> ids (add_all (concat (map fst ps)) st2)
           = ids st @ map ID (fresh (ids st) (concat (map fst ps))))
      \<and> (calm (length (concat (map fst qs) @ pre)) st2
          \<and> drop (length (concat (map fst qs) @ pre)) (faults st2) = g # gs \<and> g \<noteq> NoFault
          \<and> follow List cl [] (qs @ [(pre @ t # post, nx)]) = Some cl'
          \<and> (\<forall>p \<in> set qs. snd p \<noteq> [])
          \<and> (\<forall>u \<in> set (concat (map fst qs) @ pre). \<not> Before (rel u) start) \<longrightarrow>
         findNew List cl st
           = Some (Inl (if g = StmtFault then InsertErr else AffectedErr), cl',
                   snd (add t (add_all (concat (map fst qs) @ pre) st2)))
         \<and> prefix (tenders (add_all (concat (map fst qs) @ pre) st2))
              (tenders (snd (add t (add_all (concat (map fst qs) @ pre) st2))))
         \<and> ids (add_all (concat (map fst qs) @ pre) st2)
             = ids st @ map ID (fresh (ids st) (concat (map fst qs) @ pre)))"
      by blast
  qed
next
  show "findNew = findNew_issued \<or> findNew = findNew_observed \<longrightarrow>
        (findNew List cl st = Some (r, cl3, st3) \<longrightarrow>
           prefix (tenders st) (tenders st3)
           \<and> (distinct (ids st) \<longrightarrow> distinct (ids st3))
           \<and> (\<forall>out. r = Inr out \<longrightarrow> ids st3 = ids st @ map ID out))
        \<and> (findNew List cl st = Some (Inl e1, cl3, st3) \<and> faults st3 = []
             \<and> follow List2 cl4 [] (rs @ [(ct, [])]) = Some cl5
             \<and> (\<forall>p \<in> set rs. snd p \<noteq> []) \<longrightarrow>
            (\<exists>out cl6 st6.
               findNew List2 cl4 st3 = Some (Inr out, cl6, st6)
               \<and> prefix (tenders st) (tenders st3) \<and> prefix (tenders st3) (tenders st6)
               \<and> ids st6 = ids st3 @ map ID out
               \<and> (distinct (ids st) \<longrightarrow> distinct (ids st6))))"
  proof (intro impI)
    assume which: "findNew = findNew_issued \<or> findNew = findNew_observed"
    have run: "prefix (tenders a) (tenders b) \<and> (distinct (ids a) \<longrightarrow> distinct (ids b))
               \<and> (\<forall>out. x = Inr out \<longrightarrow> ids b = ids a @ map ID out)"
      if "findNew L c a = Some (x, c', b)" for L c a x c' b
      using which that findNew_issued_run [of L c a x c' b] findNew_observed_run [of L c a x c' b]
      by blast
    have returns: "\<exists>out cl6 st6. findNew List2 cl4 st3 = Some (Inr out, cl6, st6)"
      if "faults st3 = []" and "follow List2 cl4 [] (rs @ [(ct, [])]) = Some cl5"
        and "\<forall>p \<in> set rs. snd p \<noteq> []"
      using which findNew_issued_returns [OF that] findNew_observed_returns [OF that]
      by blast
    have second: "\<exists>out cl6 st6.
               findNew List2 cl4 st3 = Some (Inr out, cl6, st6)
               \<and> prefix (tenders st) (tenders st3) \<and> prefix (tenders st3) (tenders st6)
               \<and> ids st6 = ids st3 @ map ID out
               \<and> (distinct (ids st) \<longrightarrow> distinct (ids st6))"
      if one: "findNew List cl st = Some (Inl e1, cl3, st3)" and w: "faults st3 = []"
        and l: "follow List2 cl4 [] (rs @ [(ct, [])]) = Some cl5"
        and n: "\<forall>p \<in> set rs. snd p \<noteq> []"
    proof -
      from returns [OF w l n] obtain out cl6 st6
        where two: "findNew List2 cl4 st3 = Some (Inr out, cl6, st6)"
        by blast
      from run [OF one] run [OF two] two show ?thesis
        by blast
    qed
    from run [of List cl st r cl3 st3] second
    show "(findNew List cl st = Some (r, cl3, st3) \<longrightarrow>
           prefix (tenders st) (tenders st3)
           \<and> (distinct (ids st) \<longrightarrow> distinct (ids st3))
           \<and> (\<forall>out. r = Inr out \<longrightarrow> ids st3 = ids st @ map ID out))
        \<and> (findNew List cl st = Some (Inl e1, cl3, st3) \<and> faults st3 = []
             \<and> follow List2 cl4 [] (rs @ [(ct, [])]) = Some cl5
             \<and> (\<forall>p \<in> set rs. snd p \<noteq> []) \<longrightarrow>
            (\<exists>out cl6 st6.
               findNew List2 cl4 st3 = Some (Inr out, cl6, st6)
               \<and> prefix (tenders st) (tenders st3) \<and> prefix (tenders st3) (tenders st6)
               \<and> ids st6 = ids st3 @ map ID out
               \<and> (distinct (ids st) \<longrightarrow> distinct (ids st6))))"
      by blast
  qed
qed

theorem findNew_returns_the_error_witness:
  "findNew_issued script_List three_pages offline_store
     = Some (Inl QueryErr, three_pages, offline_store\<lparr>faults := []\<rparr>)
   \<and> findNew_issued script_List broken_listing empty_store
     = Some (Inl TransportErr, [], add_all [N1, N2] empty_store)
   \<and> ids (add_all [N1, N2] empty_store) = [''N1'', ''N2'']
   \<and> findNew_issued script_List three_pages failing_store
     = Some (Inl InsertErr, [Inr ([N3, N4, N5], ''3''), Inr ([N6], [])],
             snd (add N2 (add_all [N1] (failing_store\<lparr>faults := [NoFault, StmtFault]\<rparr>))))
   \<and> ids (snd (add N2 (add_all [N1] (failing_store\<lparr>faults := [NoFault, StmtFault]\<rparr>)))) = [''N1'']
   \<and> (\<exists>out cl6 st6.
         findNew_issued script_List three_pages
             (snd (add N2 (add_all [N1] (failing_store\<lparr>faults := [NoFault, StmtFault]\<rparr>))))
           = Some (Inr out, cl6, st6)
         \<and> ids st6 = [''N1''] @ map ID out \<and> distinct (ids st6))
   \<and> map_option (\<lambda>(r, c, w). (r, c, ids w))
        (findNew_issued script_List three_pages
           (snd (add N2 (add_all [N1] (failing_store\<lparr>faults := [NoFault, StmtFault]\<rparr>)))))
       = Some (Inr [N2, N3, N4], [Inr ([N6], [])], [''N1'', ''N2'', ''N3'', ''N4''])"
proof -
  note dates = N1_def N2_def N3_def N4_def N5_def N6_def notice_def day_at_def Before_def
    zero_time_def
  let ?st2 = "failing_store\<lparr>faults := [NoFault, StmtFault]\<rparr>"
  let ?left = "snd (add N2 (add_all [N1] ?st2))"
  have q: "faults offline_store = StmtFault # [] \<and> StmtFault \<noteq> NoFault"
    by (simp add: offline_store_def)
  have A: "findNew_issued script_List three_pages offline_store
           = Some (Inl QueryErr, three_pages, offline_store\<lparr>faults := []\<rparr>)"
    using findNew_returns_the_error [where st = offline_store and f = StmtFault and fs = "[]"
        and List = script_List and cl = three_pages, THEN conjunct1, THEN mp, OF q]
    by simp
  have p1: "(findNew_issued = findNew_issued \<and> maxIssued empty_store = (Inr zero_time, empty_store)
         \<and> IssuedDate = IssuedDate
         \<and> zero_time = (if \<not> IsZero zero_time then AddDate_months zero_time (- 1) else zero_time)
         \<and> empty_store = empty_store)
       \<or> (findNew_issued = findNew_observed \<and> maxObserved empty_store = (Inr zero_time, empty_store)
         \<and> IssuedDate = CloseDate
         \<and> zero_time = AddDate_months (if IsZero zero_time
               then now_at empty_store (ticks empty_store) else zero_time) (- 4)
         \<and> empty_store = (if IsZero zero_time
               then empty_store\<lparr>ticks := Suc (ticks empty_store)\<rparr> else empty_store))"
    using maxIssued_empty [of empty_store] by (simp add: empty_store_def)
  have b: "calm (length (concat (map fst [([N1, N2], ''2'')]))) empty_store
        \<and> follow script_List broken_listing [] [([N1, N2], ''2'')] = Some [Inl TransportErr]
        \<and> (\<forall>p \<in> set [([N1, N2], ''2'')]. snd p \<noteq> [])
        \<and> (\<forall>u \<in> set (concat (map fst [([N1, N2], ''2'')])). \<not> Before (IssuedDate u) zero_time)
        \<and> script_List [Inl TransportErr] (last ([] # map snd [([N1, N2], ''2'')]))
            = (Inl TransportErr, [])"
    by (simp add: calm_def empty_store_def script_List_def broken_listing_def dates)
  have "findNew_issued script_List broken_listing empty_store
          = Some (Inl TransportErr, [], add_all (concat (map fst [([N1, N2], ''2'')])) empty_store)
        \<and> ids (add_all (concat (map fst [([N1, N2], ''2'')])) empty_store)
          = ids empty_store @ map ID (fresh (ids empty_store) (concat (map fst [([N1, N2], ''2'')])))"
    using findNew_returns_the_error [where findNew = findNew_issued and st = empty_store
        and mx = zero_time and ?st1.0 = empty_store and rel = IssuedDate and start = zero_time
        and ?st2.0 = empty_store and List = script_List and cl = broken_listing
        and ps = "[([N1, N2], ''2'')]" and ?cl1.0 = "[Inl TransportErr]" and e = TransportErr
        and ?cl2.0 = "[]", THEN conjunct2, THEN conjunct1, THEN mp, OF p1, THEN conjunct1,
        THEN mp, OF b] .
  then have B: "findNew_issued script_List broken_listing empty_store
          = Some (Inl TransportErr, [], add_all [N1, N2] empty_store)"
    and C: "ids (add_all [N1, N2] empty_store) = [''N1'', ''N2'']"
    by (simp_all add: ids_def empty_store_def N1_def N2_def notice_def)
  have m2: "maxIssued failing_store = (Inr zero_time, ?st2)"
    by (simp add: maxIssued_def max_column_def QueryRow_max_def next_fault_def sql_max_def
        failing_store_def empty_store_def)
  have p2: "(findNew_issued = findNew_issued \<and> maxIssued failing_store = (Inr zero_time, ?st2)
         \<and> IssuedDate = IssuedDate
         \<and> zero_time = (if \<not> IsZero zero_time then AddDate_months zero_time (- 1) else zero_time)
         \<and> ?st2 = ?st2)
       \<or> (findNew_issued = findNew_observed \<and> maxObserved failing_store = (Inr zero_time, ?st2)
         \<and> IssuedDate = CloseDate
         \<and> zero_time = AddDate_months (if IsZero zero_time
               then now_at ?st2 (ticks ?st2) else zero_time) (- 4)
         \<and> ?st2 = (if IsZero zero_time then ?st2\<lparr>ticks := Suc (ticks ?st2)\<rparr> else ?st2))"
    using m2 by simp
  have d: "calm (length (concat (map fst []) @ [N1])) ?st2
          \<and> drop (length (concat (map fst []) @ [N1])) (faults ?st2) = StmtFault # []
          \<and> StmtFault \<noteq> NoFault
          \<and> follow script_List three_pages [] ([] @ [([N1] @ N2 # [], ''2'')])
              = Some [Inr ([N3, N4, N5], ''3''), Inr ([N6], [])]
          \<and> (\<forall>p \<in> set []. snd p \<noteq> [])
          \<and> (\<forall>u \<in> set (concat (map fst []) @ [N1]). \<not> Before (IssuedDate u) zero_time)"
    by (simp add: calm_def failing_store_def script_List_def three_pages_def dates)
  have "findNew_issued script_List three_pages failing_store
           = Some (Inl (if StmtFault = StmtFault then InsertErr else AffectedErr),
                   [Inr ([N3, N4, N5], ''3''), Inr ([N6], [])],
                   snd (add N2 (add_all (concat (map fst []) @ [N1]) ?st2)))
         \<and> prefix (tenders (add_all (concat (map fst []) @ [N1]) ?st2))
              (tenders (snd (add N2 (add_all (concat (map fst []) @ [N1]) ?st2))))
         \<and> ids (add_all (concat (map fst []) @ [N1]) ?st2)
             = ids failing_store @ map ID (fresh (ids failing_store) (concat (map fst []) @ [N1]))"
    using findNew_returns_the_error [where findNew = findNew_issued and st = failing_store
        and mx = zero_time and ?st1.0 = ?st2 and rel = IssuedDate and start = zero_time
        and ?st2.0 = ?st2 and List = script_List and cl = three_pages
        and qs = "[]" and pre = "[N1]" and t = N2 and post = "[]" and nx = "''2''"
        and cl' = "[Inr ([N3, N4, N5], ''3''), Inr ([N6], [])]" and g = StmtFault and gs = "[]",
        THEN conjunct2, THEN conjunct1, THEN mp, OF p2, THEN conjunct2, THEN mp, OF d]
    by simp
  then have D: "findNew_issued script_List three_pages failing_store
     = Some (Inl InsertErr, [Inr ([N3, N4, N5], ''3''), Inr ([N6], [])], ?left)"
    by simp
  have E: "ids ?left = [''N1'']"
    by code_simp
  have w: "faults ?left = []"
    by (simp add: add_faults add_all_faults failing_store_def)
  have s: "findNew_issued script_List three_pages failing_store
             = Some (Inl InsertErr, [Inr ([N3, N4, N5], ''3''), Inr ([N6], [])], ?left)
           \<and> faults ?left = []
           \<and> follow script_List three_pages [] ([([N1, N2], ''2''), ([N3, N4, N5], ''3'')] @ [([N6], [])])
               = Some []
           \<and> (\<forall>p \<in> set [([N1, N2], ''2''), ([N3, N4, N5], ''3'')]. snd p \<noteq> [])"
    using D w by (simp add: script_List_def three_pages_def)
  have "\<exists>out cl6 st6.
          findNew_issued script_List three_pages ?left = Some (Inr out, cl6, st6)
          \<and> prefix (tenders failing_store) (tenders ?left) \<and> prefix (tenders ?left) (tenders st6)
          \<and> ids st6 = ids ?left @ map ID out
          \<and> (distinct (ids failing_store) \<longrightarrow> distinct (ids st6))"
    using findNew_returns_the_error [where findNew = findNew_issued and st = failing_store
        and List = script_List and cl = three_pages and ?e1.0 = InsertErr
        and ?cl3.0 = "[Inr ([N3, N4, N5], ''3''), Inr ([N6], [])]" and ?st3.0 = ?left
        and ?List2.0 = script_List and ?cl4.0 = three_pages
        and rs = "[([N1, N2], ''2''), ([N3, N4, N5], ''3'')]" and ct = "[N6]" and ?cl5.0 = "[]",
        THEN conjunct2, THEN conjunct2, THEN mp, OF disjI1, OF refl, THEN conjunct2, THEN mp,
        OF s] .
  then have F: "\<exists>out cl6 st6.
         findNew_issued script_List three_pages ?left = Some (Inr out, cl6, st6)
         \<and> ids st6 = [''N1''] @ map ID out \<and> distinct (ids st6)"
    using E by (auto simp add: ids_def failing_store_def empty_store_def)
  have G: "map_option (\<lambda>(r, c, w). (r, c, ids w)) (findNew_issued script_List three_pages ?left)
       = Some (Inr [N2, N3, N4], [Inr ([N6], [])], [''N1'', ''N2'', ''N3'', ''N4''])"
    by code_simp
  from A B C D E F G show ?thesis
    by blast
qed

section \<open>The cursor a client returns\<close>

lemma decimal_not_Nil: "decimal n \<noteq> []"
  by (subst decimal.simps) simp

lemma Itoa_not_Nil: "Itoa x \<noteq> []"
  by (simp add: Itoa_def decimal_not_Nil)

lemma List_token_cursor:
  "fst (List_token s token) = Inr (ts, nx) \<Longrightarrow> nx = [] \<longleftrightarrow> ts = []"
  by (auto simp add: List_token_def Let_def Itoa_not_Nil
      split: prod.splits option.splits sum.splits if_splits)

lemma list_form_page_cursor:
  "fst (list_form_page s token) = Inr (ts, nx) \<Longrightarrow> nx = [] \<longleftrightarrow> length ts < pageSize"
  by (auto simp add: list_form_page_def Let_def Itoa_not_Nil
      split: prod.splits option.splits sum.splits if_splits)

lemma List_form_cursor:
  "fst (List_form s token) = Inr (ts, nx) \<Longrightarrow> nx = [] \<longleftrightarrow> length ts < 100"
  using list_form_page_cursor [of _ token ts nx]
  by (auto simp add: List_form_def pageSize_def split: prod.splits option.splits if_splits)

lemma List_browser_cursor:
  "fst (List_browser s token) = Inr (ts, nx) \<Longrightarrow>
   nx = [] \<longleftrightarrow> \<not> next_enabled (snd (snd (List_browser s token)))
                      (done_actions (snd (snd (List_browser s token))))"
  by (auto simp add: List_browser_def Let_def
      split: prod.splits option.splits sum.splits if_splits bool.splits)

text \<open>
  C6, as the claim states it, fails for the token client: the portal has one tender, the
  first page holds it and is the last page, and the client returns the cursor 2; the call
  with that cursor finds an empty page.
\<close>

theorem List_token_last_page_counterexample:
  "fst (List_token (new_token_client, small_portal) []) = Inr ([T1], ''2'')
   \<and> fst (List_token (snd (List_token (new_token_client, small_portal) [])) ''2'') = Inr ([], [])"
  by code_simp

text \<open>
  C6 (amended): a successful \<open>List\<close> of the token client returns an empty cursor exactly
  when the page held no record; of the form client, exactly when the page held fewer than
  100 records; of the browser client, exactly when the control for the next page is not
  enabled.
\<close>

theorem List_cursor_empty_iff:
  "(fst (List_token s1 token) = Inr (ts, nx) \<longrightarrow> (nx = [] \<longleftrightarrow> ts = []))
   \<and> (fst (List_form s2 token) = Inr (ts, nx) \<longrightarrow> (nx = [] \<longleftrightarrow> length ts < 100))
   \<and> (fst (List_browser s3 token) = Inr (ts, nx) \<longrightarrow>
        (nx = [] \<longleftrightarrow> \<not> next_enabled (snd (snd (List_browser s3 token)))
                          (done_actions (snd (snd (List_browser s3 token))))))"
  using List_token_cursor [of s1 token ts nx] List_form_cursor [of s2 token ts nx]
    List_browser_cursor [of s3 token ts nx]
  by blast

section \<open>The session of a client\<close>

subsection \<open>The token client\<close>

lemma init_token_ready: "tc_ready (fst s) \<Longrightarrow> init_token s = (None, s)"
  by (cases s) (simp add: init_token_def)

lemma init_token_new:
  "\<not> tc_ready (fst s) \<Longrightarrow>
   init_token s
     = (case fetch (auth_reply (snd s) (sent (snd s))) of
          Inl e \<Rightarrow> (Some e, (fst s, (snd s)\<lparr>sent := sent (snd s) @ [Authenticate]\<rparr>))
        | Inr jwt \<Rightarrow>
            if jwt = [] then (Some NoTokenErr, (fst s, (snd s)\<lparr>sent := sent (snd s) @ [Authenticate]\<rparr>))
            else (None, ((fst s)\<lparr>tc_token := jwt, tc_ready := True\<rparr>,
                         (snd s)\<lparr>sent := sent (snd s) @ [Authenticate]\<rparr>)))"
  by (cases s) (auto simp add: init_token_def Let_def split: sum.splits)

lemma tenderClosingLocationURL_ready:
  assumes "tc_ready (fst s)"
  shows "fst (snd (tenderClosingLocationURL tid s)) = fst s
       \<and> logins (snd (tenderClosingLocationURL tid s)) = logins s"
  using assms
  by (cases s)
     (auto simp add: tenderClosingLocationURL_def init_token_ready logins_def Let_def
        split: sum.splits list.splits option.splits)

lemma tenders_of_ready:
  "tc_ready (fst s) \<Longrightarrow>
   fst (snd (tenders_of tds ts s)) = fst s \<and> logins (snd (tenders_of tds ts s)) = logins s"
proof (induction tds arbitrary: ts s)
  case Nil
  then show ?case by simp
next
  case (Cons td tds)
  note u = tenderClosingLocationURL_ready [OF Cons.prems, of "TenderID td"]
  obtain r s1 where Pair: "tenderClosingLocationURL (TenderID td) s = (r, s1)"
    using prod.exhaust by blast
  with u have s1: "fst s1 = fst s" "logins s1 = logins s"
    by simp_all
  with Cons.prems have "tc_ready (fst s1)"
    by simp
  note ih = Cons.IH [OF this]
  show ?case
    using Pair s1 ih
    by (auto simp add: Let_def split: option.splits sum.splits)
qed

lemma List_token_ready_state:
  "tc_ready f \<Longrightarrow>
   snd (List_token (f, p) token)
     = (case (if token \<noteq> [] then Atoi token else Some 1) of
          None \<Rightarrow> (f, p)
        | Some page \<Rightarrow>
            (case fetch (page_reply p (sent p) (tc_token f) page) of
               Inl e \<Rightarrow> (f, p\<lparr>sent := sent p @ [ListTenders (tc_token f) page]\<rparr>)
             | Inr tds \<Rightarrow>
                 snd (tenders_of tds [] (f, p\<lparr>sent := sent p @ [ListTenders (tc_token f) page]\<rparr>))))"
  by (simp add: List_token_def init_token_ready Let_def
      split: option.splits sum.splits prod.splits)

lemma List_token_ready:
  assumes "tc_ready (fst s)"
  shows "fst (snd (List_token s token)) = fst s \<and> logins (snd (List_token s token)) = logins s"
proof -
  obtain f p where s: "s = (f, p)" by (cases s)
  with assms have r: "tc_ready f" by simp
  have t: "fst (snd (tenders_of tds [] (f, p\<lparr>sent := sent p @ [ListTenders (tc_token f) page]\<rparr>))) = f
      \<and> logins (snd (tenders_of tds [] (f, p\<lparr>sent := sent p @ [ListTenders (tc_token f) page]\<rparr>)))
          = logins (f, p)" for page tds
    using tenders_of_ready [of "(f, p\<lparr>sent := sent p @ [ListTenders (tc_token f) page]\<rparr>)" tds "[]"] r
    by (simp add: logins_def)
  show ?thesis
    unfolding s List_token_ready_state [OF r]
    by (simp add: t split: option.splits sum.splits) (simp add: logins_def)
qed

lemma init_token_fails:
  assumes "\<not> tc_ready (fst s)" and "fst (init_token s) = Some e"
  shows "List_token s token = (Inl e, snd (init_token s))"
    and "snd (init_token s) = (fst s, (snd s)\<lparr>sent := sent (snd s) @ [Authenticate]\<rparr>)"
  using assms
  by (auto simp add: List_token_def init_token_new [OF assms(1)]
      split: sum.splits if_splits prod.splits)

lemma init_token_succeeds:
  assumes "\<not> tc_ready (fst s)" and "fst (init_token s) = None"
  shows "List_token s token = List_token (snd (init_token s)) token"
    and "tc_ready (fst (snd (init_token s)))"
    and "logins (snd (init_token s)) = Suc (logins s)"
proof -
  obtain jwt where j: "fetch (auth_reply (snd s) (sent (snd s))) = Inr jwt" "jwt \<noteq> []"
    using assms by (auto simp add: init_token_new split: sum.splits if_splits)
  let ?s1 = "((fst s)\<lparr>tc_token := jwt, tc_ready := True\<rparr>,
              (snd s)\<lparr>sent := sent (snd s) @ [Authenticate]\<rparr>)"
  have i: "init_token s = (None, ?s1)"
    using j by (simp add: init_token_new [OF assms(1)])
  have r: "init_token ?s1 = (None, ?s1)"
    by (rule init_token_ready) simp
  show "List_token s token = List_token (snd (init_token s)) token"
    by (simp add: List_token_def i r)
  show "tc_ready (fst (snd (init_token s)))"
    by (simp add: i)
  show "logins (snd (init_token s)) = Suc (logins s)"
    by (simp add: i logins_def)
qed

lemma calls_Nil [simp]: "calls List cl [] = cl"
  by (simp add: calls_def)

lemma calls_Cons [simp]: "calls List cl (token # tokens) = calls List (snd (List cl token)) tokens"
  by (simp add: calls_def)

lemma calls_token_ready:
  "tc_ready (fst s) \<Longrightarrow> fst (calls List_token s tokens) = fst s \<and> logins (calls List_token s tokens) = logins s"
proof (induction tokens arbitrary: s)
  case Nil
  then show ?case by simp
next
  case (Cons token tokens)
  note l = List_token_ready [OF Cons.prems, of token]
  with Cons.prems have "tc_ready (fst (snd (List_token s token)))"
    by simp
  from Cons.IH [OF this] l show ?case by simp
qed

subsection \<open>The form client\<close>

lemma list_form_page_session:
  "fc_ready (fst (snd (list_form_page s token))) = fc_ready (fst s)
   \<and> first_gets (snd (list_form_page s token)) = first_gets s"
  by (cases s)
     (simp add: list_form_page_def Let_def first_gets_def split: option.splits sum.splits)

lemma List_form_ready:
  "fc_ready (fst s) \<Longrightarrow>
   fc_ready (fst (snd (List_form s token))) \<and> first_gets (snd (List_form s token)) = first_gets s"
  using list_form_page_session [of s token] by (cases s) (simp add: List_form_def)

lemma List_form_first_token:
  "\<not> fc_ready (fst s) \<Longrightarrow> token \<noteq> [] \<Longrightarrow> List_form s token = (Inl FirstTokenErr, s)"
  by (cases s) (simp add: List_form_def)

lemma init_form_fails:
  assumes "\<not> fc_ready (fst s)" and "fst (init_form s) = Some e"
  shows "List_form s [] = (Inl e, snd (init_form s))"
    and "snd (init_form s) = (fst s, (snd s)\<lparr>site_sent := site_sent (snd s) @ [FormGet]\<rparr>)"
  using assms
  by (cases s; auto simp add: List_form_def init_form_def Let_def split: sum.splits prod.splits)+

lemma init_form_succeeds:
  assumes "\<not> fc_ready (fst s)" and "fst (init_form s) = None"
  shows "fc_ready (fst (snd (List_form s [])))"
    and "first_gets (snd (List_form s [])) = Suc (first_gets s)"
proof -
  obtain f w where s: "s = (f, w)" by (cases s)
  obtain f1 w1 where i: "init_form (f, w) = (None, (f1, w1))"
    using assms(2) s by (cases "init_form (f, w)") auto
  then have g: "first_gets (f1, w1) = Suc (first_gets s)"
    by (auto simp add: s init_form_def Let_def first_gets_def split: sum.splits)
  have l: "List_form s [] = list_form_page (f1\<lparr>fc_ready := True\<rparr>, w1) []"
    using assms(1) by (simp add: s List_form_def i)
  note p = list_form_page_session [of "(f1\<lparr>fc_ready := True\<rparr>, w1)" "[]"]
  show "fc_ready (fst (snd (List_form s [])))"
    using p by (simp add: l)
  show "first_gets (snd (List_form s [])) = Suc (first_gets s)"
    using p g by (simp add: l first_gets_def)
qed

lemma calls_form_ready:
  "fc_ready (fst s) \<Longrightarrow>
   fc_ready (fst (calls List_form s tokens)) \<and> first_gets (calls List_form s tokens) = first_gets s"
proof (induction tokens arbitrary: s)
  case Nil
  then show ?case by simp
next
  case (Cons token tokens)
  note l = List_form_ready [OF Cons.prems, of token]
  from Cons.IH [of "snd (List_form s token)"] l show ?case by simp
qed

subsection \<open>The browser client\<close>

lemma init_browser_ready: "bc_ready (fst s) \<Longrightarrow> init_browser s = (None, s)"
  by (cases s) (simp add: init_browser_def)

lemma bootstrap_installs:
  "count_list (done_actions (snd (bootstrap init_steps b))) Install = Suc (count_list (done_actions b) Install)
   \<and> count_list (done_actions (snd (bootstrap init_steps b))) WaitTable = count_list (done_actions b) WaitTable"
  by (simp add: init_steps_def act_def split: bool.splits)

lemma init_browser_new:
  assumes "\<not> bc_ready (fst s)"
  shows "bootstraps (snd (init_browser s)) = Suc (bootstraps s)"
    and "responses (fst (snd (init_browser s))) = responses (fst s)"
    and "bc_ready (fst (snd (init_browser s))) \<longleftrightarrow> fst (init_browser s) = None"
    and "count_list (done_actions (snd (snd (init_browser s)))) WaitTable
         = count_list (done_actions (snd s)) WaitTable"
  using assms bootstrap_installs [of "snd s"]
  by (cases s; cases "bootstrap init_steps (snd s)";
      auto simp add: init_browser_def bootstraps_def split: option.splits)+

lemma raw_tenders_actions:
  "done_actions (snd (raw_tenders ds ts b)) = done_actions b"
  by (induction ds arbitrary: ts b)
     (auto simp add: Now_def split: option.splits prod.splits)

lemma List_browser_ready:
  assumes "bc_ready (fst s)"
  shows "bc_ready (fst (snd (List_browser s token)))
       \<and> bootstraps (snd (List_browser s token)) = bootstraps s"
proof -
  obtain c b where s: "s = (c, b)" by (cases s)
  have r: "done_actions (snd (raw_tenders ds [] b')) = done_actions b'" for ds b'
    by (rule raw_tenders_actions)
  have r': "raw_tenders ds [] b' = (x, b'') \<Longrightarrow> done_actions b'' = done_actions b'" for ds b' x b''
    using r [of ds b'] by simp
  show ?thesis
    using assms
    by (auto simp add: s List_browser_def init_browser_ready act_def dequeue_def bootstraps_def
        Let_def dest!: r' split: bool.splits list.splits sum.splits prod.splits if_splits)
qed

lemma init_browser_fails:
  assumes "\<not> bc_ready (fst s)" and "fst (init_browser s) = Some e"
  shows "List_browser s token = (Inl e, snd (init_browser s))"
  using assms by (cases "init_browser s") (simp add: List_browser_def)

lemma init_browser_succeeds:
  assumes "\<not> bc_ready (fst s)" and "fst (init_browser s) = None"
  shows "bc_ready (fst (snd (List_browser s token)))"
    and "bootstraps (snd (List_browser s token)) = Suc (bootstraps s)"
proof -
  let ?s1 = "snd (init_browser s)"
  have r1: "bc_ready (fst ?s1)"
    using init_browser_new(3) [OF assms(1)] assms(2) by simp
  have i1: "init_browser ?s1 = (None, ?s1)"
    by (rule init_browser_ready [OF r1])
  have "init_browser s = (None, ?s1)"
    using assms(2) by (cases "init_browser s") simp
  then have l: "List_browser s token = List_browser ?s1 token"
    by (simp add: List_browser_def i1)
  note k = List_browser_ready [OF r1, of token]
  show "bc_ready (fst (snd (List_browser s token)))"
    using k by (simp add: l)
  show "bootstraps (snd (List_browser s token)) = Suc (bootstraps s)"
    using k init_browser_new(1) [OF assms(1)] by (simp add: l)
qed

lemma calls_browser_ready:
  "bc_ready (fst s) \<Longrightarrow>
   bc_ready (fst (calls List_browser s tokens))
   \<and> bootstraps (calls List_browser s tokens) = bootstraps s"
proof (induction tokens arbitrary: s)
  case Nil
  then show ?case by simp
next
  case (Cons token tokens)
  note l = List_browser_ready [OF Cons.prems, of token]
  from Cons.IH [of "snd (List_browser s token)"] l show ?case by simp
qed

text \<open>
  C8, as the claim states it, fails when the first attempt does not succeed: the login of
  this portal fails once. The first call of \<open>List\<close> returns the error; the second call
  logs in again, so that two logins have been sent and the session is established by the
  second call, not the first.
\<close>

theorem session_retry_counterexample:
  "fst (List_token (new_token_client, flaky_portal) []) = Inl (StatusErr 503)
   \<and> fst (List_token (snd (List_token (new_token_client, flaky_portal) [])) []) = Inr ([T1], ''2'')
   \<and> sent (snd (snd (List_token (snd (List_token (new_token_client, flaky_portal) [])) [])))
       = [Authenticate, Authenticate, ListTenders ''jwt'' 1, TenderDetail ''jwt'' ''T1'']"
  by code_simp

text \<open>
  C8 (amended), for each of the three clients. Once the session is established, no
  sequence of calls establishes it again: the client stays ready and sends no further
  login (first \<^verbatim>\<open>GET\<close>, installation of the browser).

  A call on a client without a session. The form client refuses such a call when it
  carries a cursor: it returns an error, sends nothing and attempts nothing, and the
  client is as it was. In every other case (the token and browser clients with any
  cursor, the form client with the empty cursor) the call sets out to establish the
  session, once. If that fails, the call returns the error, nothing but the attempt has
  been sent (no page is fetched) and the client is still without a session, so that the
  next such call attempts it again; if it succeeds, the client is ready, and the whole
  sequence of calls that starts with this one has established the session exactly once.
\<close>

theorem session_established_once:
  "((tc_ready (fst s1) \<longrightarrow>
       fst (calls List_token s1 tokens) = fst s1 \<and> logins (calls List_token s1 tokens) = logins s1)
    \<and> (\<not> tc_ready (fst s1) \<and> fst (init_token s1) = Some e \<longrightarrow>
         List_token s1 token
           = (Inl e, (fst s1, (snd s1)\<lparr>sent := sent (snd s1) @ [Authenticate]\<rparr>)))
    \<and> (\<not> tc_ready (fst s1) \<and> fst (init_token s1) = None \<longrightarrow>
         tc_ready (fst (snd (List_token s1 token)))
         \<and> logins (calls List_token s1 (token # tokens)) = Suc (logins s1)))
   \<and> ((fc_ready (fst s2) \<longrightarrow>
         fc_ready (fst (calls List_form s2 tokens))
         \<and> first_gets (calls List_form s2 tokens) = first_gets s2)
      \<and> (\<not> fc_ready (fst s2) \<and> token \<noteq> [] \<longrightarrow> List_form s2 token = (Inl FirstTokenErr, s2))
      \<and> (\<not> fc_ready (fst s2) \<and> fst (init_form s2) = Some e \<longrightarrow>
           List_form s2 []
             = (Inl e, (fst s2, (snd s2)\<lparr>site_sent := site_sent (snd s2) @ [FormGet]\<rparr>)))
      \<and> (\<not> fc_ready (fst s2) \<and> fst (init_form s2) = None \<longrightarrow>
           fc_ready (fst (snd (List_form s2 [])))
           \<and> first_gets (calls List_form s2 ([] # tokens)) = Suc (first_gets s2)))
   \<and> ((bc_ready (fst s3) \<longrightarrow>
         bc_ready (fst (calls List_browser s3 tokens))
         \<and> bootstraps (calls List_browser s3 tokens) = bootstraps s3)
      \<and> (\<not> bc_ready (fst s3) \<and> fst (init_browser s3) = Some e \<longrightarrow>
           List_browser s3 token = (Inl e, snd (init_browser s3))
           \<and> \<not> bc_ready (fst (snd (init_browser s3)))
           \<and> responses (fst (snd (init_browser s3))) = responses (fst s3)
           \<and> count_list (done_actions (snd (snd (init_browser s3)))) WaitTable
               = count_list (done_actions (snd s3)) WaitTable)
      \<and> (\<not> bc_ready (fst s3) \<and> fst (init_browser s3) = None \<longrightarrow>
           bc_ready (fst (snd (List_browser s3 token)))
           \<and> bootstraps (calls List_browser s3 (token # tokens)) = Suc (bootstraps s3)))"
proof -
  have t1: "tc_ready (fst s1) \<longrightarrow>
       fst (calls List_token s1 tokens) = fst s1 \<and> logins (calls List_token s1 tokens) = logins s1"
    using calls_token_ready [of s1 tokens] by blast
  have t2: "\<not> tc_ready (fst s1) \<and> fst (init_token s1) = Some e \<longrightarrow>
         List_token s1 token
           = (Inl e, (fst s1, (snd s1)\<lparr>sent := sent (snd s1) @ [Authenticate]\<rparr>))"
    using init_token_fails(1) [of s1 e token] init_token_fails(2) [of s1 e] by auto
  have t3: "\<not> tc_ready (fst s1) \<and> fst (init_token s1) = None \<longrightarrow>
         tc_ready (fst (snd (List_token s1 token)))
         \<and> logins (calls List_token s1 (token # tokens)) = Suc (logins s1)"
  proof (intro impI, elim conjE)
    assume a: "\<not> tc_ready (fst s1)" "fst (init_token s1) = None"
    note i = init_token_succeeds [OF a]
    note l = List_token_ready [OF i(2), of token]
    from l i(2) have r: "tc_ready (fst (snd (List_token (snd (init_token s1)) token)))"
      by simp
    note c = calls_token_ready [OF r, of tokens]
    show "tc_ready (fst (snd (List_token s1 token)))
         \<and> logins (calls List_token s1 (token # tokens)) = Suc (logins s1)"
      using r c l i(3) by (simp add: i(1) [of token])
  qed
  have f1: "fc_ready (fst s2) \<longrightarrow>
         fc_ready (fst (calls List_form s2 tokens))
         \<and> first_gets (calls List_form s2 tokens) = first_gets s2"
    using calls_form_ready [of s2 tokens] by blast
  have f2: "\<not> fc_ready (fst s2) \<and> token \<noteq> [] \<longrightarrow> List_form s2 token = (Inl FirstTokenErr, s2)"
    using List_form_first_token [of s2 token] by blast
  have f3: "\<not> fc_ready (fst s2) \<and> fst (init_form s2) = Some e \<longrightarrow>
           List_form s2 []
             = (Inl e, (fst s2, (snd s2)\<lparr>site_sent := site_sent (snd s2) @ [FormGet]\<rparr>))"
    using init_form_fails [of s2 e] by auto
  have f4: "\<not> fc_ready (fst s2) \<and> fst (init_form s2) = None \<longrightarrow>
           fc_ready (fst (snd (List_form s2 [])))
           \<and> first_gets (calls List_form s2 ([] # tokens)) = Suc (first_gets s2)"
  proof (intro impI, elim conjE)
    assume a: "\<not> fc_ready (fst s2)" "fst (init_form s2) = None"
    note i = init_form_succeeds [OF a]
    note c = calls_form_ready [OF i(1), of tokens]
    show "fc_ready (fst (snd (List_form s2 [])))
           \<and> first_gets (calls List_form s2 ([] # tokens)) = Suc (first_gets s2)"
      using i c by simp
  qed
  have b1: "bc_ready (fst s3) \<longrightarrow>
         bc_ready (fst (calls List_browser s3 tokens))
         \<and> bootstraps (calls List_browser s3 tokens) = bootstraps s3"
    using calls_browser_ready [of s3 tokens] by blast
  have b2: "\<not> bc_ready (fst s3) \<and> fst (init_browser s3) = Some e \<longrightarrow>
           List_browser s3 token = (Inl e, snd (init_browser s3))
           \<and> \<not> bc_ready (fst (snd (init_browser s3)))
           \<and> responses (fst (snd (init_browser s3))) = responses (fst s3)
           \<and> count_list (done_actions (snd (snd (init_browser s3)))) WaitTable
               = count_list (done_actions (snd s3)) WaitTable"
    using init_browser_fails [of s3 e token] init_browser_new [of s3] by auto
  have b3: "\<not> bc_ready (fst s3) \<and> fst (init_browser s3) = None \<longrightarrow>
           bc_ready (fst (snd (List_browser s3 token)))
           \<and> bootstraps (calls List_browser s3 (token # tokens)) = Suc (bootstraps s3)"
  proof (intro impI, elim conjE)
    assume a: "\<not> bc_ready (fst s3)" "fst (init_browser s3) = None"
    note i = init_browser_succeeds [OF a, of token]
    note c = calls_browser_ready [OF i(1), of tokens]
    show "bc_ready (fst (snd (List_browser s3 token)))
           \<and> bootstraps (calls List_browser s3 (token # tokens)) = Suc (bootstraps s3)"
      using i c by simp
  qed
  from t1 t2 t3 f1 f2 f3 f4 b1 b2 b3 show ?thesis
    by (intro conjI)
qed

theorem session_established_once_witness:
  "logins (calls List_token (new_token_client, small_portal) [[], ''2'']) = 1
   \<and> List_token (new_token_client, dead_portal) []
       = (Inl TransportErr, (new_token_client, dead_portal\<lparr>sent := [Authenticate]\<rparr>))
   \<and> logins (calls List_token (snd (List_token (new_token_client, small_portal) [])) [''2'', ''3'']) = 1
   \<and> first_gets (calls List_form (new_form_client, small_site) [[], []]) = 1
   \<and> List_form (new_form_client, small_site) ''2'' = (Inl FirstTokenErr, (new_form_client, small_site))
   \<and> List_form (new_form_client, dead_site) []
       = (Inl TransportErr, (new_form_client, dead_site\<lparr>site_sent := [FormGet]\<rparr>))
   \<and> first_gets (calls List_form (snd (List_form (new_form_client, small_site) [])) [[], []]) = 1
   \<and> bootstraps (calls List_browser (new_browser_client, small_browser) [[], ''next'']) = 1
   \<and> fst (List_browser (new_browser_client, stuck_browser) []) = Inl (PlaywrightErr ''launching browser'')
   \<and> bootstraps (calls List_browser (snd (List_browser (new_browser_client, small_browser) [])) [[]]) = 1"
proof -
  let ?t = "(new_token_client, small_portal)" and ?td = "(new_token_client, dead_portal)"
  let ?f = "(new_form_client, small_site)" and ?fd = "(new_form_client, dead_site)"
  let ?b = "(new_browser_client, small_browser)" and ?bd = "(new_browser_client, stuck_browser)"
  have t0: "logins ?t = 0" "sent (snd ?td) = []"
    by (simp_all add: logins_def small_portal_def dead_portal_def)
  have ta: "\<not> tc_ready (fst ?t) \<and> fst (init_token ?t) = None"
    by code_simp
  have A: "logins (calls List_token ?t [[], ''2'']) = 1"
    using session_established_once [where ?s1.0 = ?t and token = "[]" and tokens = "[''2'']",
        THEN conjunct1, THEN conjunct2, THEN conjunct2, THEN mp, OF ta] t0
    by simp
  have tb: "\<not> tc_ready (fst ?td) \<and> fst (init_token ?td) = Some TransportErr"
    by code_simp
  have B: "List_token ?td [] = (Inl TransportErr, (new_token_client, dead_portal\<lparr>sent := [Authenticate]\<rparr>))"
    using session_established_once [where ?s1.0 = ?td and token = "[]" and e = TransportErr,
        THEN conjunct1, THEN conjunct2, THEN conjunct1, THEN mp, OF tb] t0
    by simp
  have tc: "tc_ready (fst (snd (List_token ?t [])))"
    by code_simp
  have tc': "logins (snd (List_token ?t [])) = 1"
    unfolding logins_def by code_simp
  have C: "logins (calls List_token (snd (List_token ?t [])) [''2'', ''3'']) = 1"
    using session_established_once [where ?s1.0 = "snd (List_token ?t [])"
        and tokens = "[''2'', ''3'']", THEN conjunct1, THEN conjunct1, THEN mp, OF tc] tc'
    by simp
  have f0: "first_gets ?f = 0" "site_sent (snd ?fd) = []"
    by (simp_all add: first_gets_def small_site_def dead_site_def)
  have fa: "\<not> fc_ready (fst ?f) \<and> fst (init_form ?f) = None"
    by code_simp
  have D: "first_gets (calls List_form ?f [[], []]) = 1"
    using session_established_once [where ?s2.0 = ?f and tokens = "[[]]",
        THEN conjunct2, THEN conjunct1, THEN conjunct2, THEN conjunct2, THEN conjunct2, THEN mp,
        OF fa] f0
    by simp
  have fb: "\<not> fc_ready (fst ?f) \<and> ''2'' \<noteq> []"
    by (simp add: new_form_client_def)
  have E: "List_form ?f ''2'' = (Inl FirstTokenErr, ?f)"
    using session_established_once [where ?s2.0 = ?f and token = "''2''",
        THEN conjunct2, THEN conjunct1, THEN conjunct2, THEN conjunct1, THEN mp, OF fb]
    by simp
  have fc: "\<not> fc_ready (fst ?fd) \<and> fst (init_form ?fd) = Some TransportErr"
    by code_simp
  have F: "List_form ?fd [] = (Inl TransportErr, (new_form_client, dead_site\<lparr>site_sent := [FormGet]\<rparr>))"
    using session_established_once [where ?s2.0 = ?fd and e = TransportErr,
        THEN conjunct2, THEN conjunct1, THEN conjunct2, THEN conjunct2, THEN conjunct1, THEN mp,
        OF fc] f0
    by simp
  have fd: "fc_ready (fst (snd (List_form ?f [])))"
    by code_simp
  have fd': "first_gets (snd (List_form ?f [])) = 1"
    unfolding first_gets_def by code_simp
  have G: "first_gets (calls List_form (snd (List_form ?f [])) [[], []]) = 1"
    using session_established_once [where ?s2.0 = "snd (List_form ?f [])" and tokens = "[[], []]",
        THEN conjunct2, THEN conjunct1, THEN conjunct1, THEN mp, OF fd] fd'
    by simp
  have b0: "bootstraps ?b = 0"
    by (simp add: bootstraps_def small_browser_def)
  have ba: "\<not> bc_ready (fst ?b) \<and> fst (init_browser ?b) = None"
    by code_simp
  have H: "bootstraps (calls List_browser ?b [[], ''next'']) = 1"
    using session_established_once [where ?s3.0 = ?b and token = "[]" and tokens = "[''next'']",
        THEN conjunct2, THEN conjunct2, THEN conjunct2, THEN conjunct2, THEN mp, OF ba] b0
    by simp
  have bb: "\<not> bc_ready (fst ?bd) \<and> fst (init_browser ?bd) = Some (PlaywrightErr ''launching browser'')"
    by code_simp
  have I: "fst (List_browser ?bd []) = Inl (PlaywrightErr ''launching browser'')"
    using session_established_once [where ?s3.0 = ?bd and token = "[]"
        and e = "PlaywrightErr ''launching browser''",
        THEN conjunct2, THEN conjunct2, THEN conjunct2, THEN conjunct1, THEN mp, OF bb]
    by simp
  have bc: "bc_ready (fst (snd (List_browser ?b [])))"
    by code_simp
  have bc': "bootstraps (snd (List_browser ?b [])) = 1"
    unfolding bootstraps_def by code_simp
  have J: "bootstraps (calls List_browser (snd (List_browser ?b [])) [[]]) = 1"
    using session_established_once [where ?s3.0 = "snd (List_browser ?b [])" and tokens = "[[]]",
        THEN conjunct2, THEN conjunct2, THEN conjunct1, THEN mp, OF bc] bc'
    by simp
  from A B C D E F G H I J show ?thesis
    by (intro conjI)
qed

theorem List_cursor_empty_iff_witness:
  "fst (List_token (new_token_client, small_portal) []) = Inr ([T1], ''2'')
   \<and> fst (List_token (snd (List_token (new_token_client, small_portal) [])) ''2'') = Inr ([], [])
   \<and> fst (List_form (new_form_client, small_site) []) = Inr ([T2], []) \<and> length [T2] < 100
   \<and> fst (List_browser (new_browser_client, small_browser) []) = Inr ([B1], [])
   \<and> \<not> next_enabled (snd (snd (List_browser (new_browser_client, small_browser) [])))
          (done_actions (snd (snd (List_browser (new_browser_client, small_browser) []))))"
proof -
  let ?t = "(new_token_client, small_portal)"
  let ?f = "(new_form_client, small_site)"
  let ?b = "(new_browser_client, small_browser)"
  have a: "fst (List_token ?t []) = Inr ([T1], ''2'')"
    by code_simp
  have b: "fst (List_token (snd (List_token ?t [])) ''2'') = Inr ([], [])"
    by code_simp
  have c: "fst (List_form ?f []) = Inr ([T2], [])"
    by code_simp
  have d: "fst (List_browser ?b []) = Inr ([B1], [])"
    by code_simp
  have c': "length [T2] < 100"
    using List_cursor_empty_iff [where ?s2.0 = ?f and token = "[]" and ts = "[T2]" and nx = "[]",
        THEN conjunct2, THEN conjunct1, THEN mp, OF c]
    by simp
  have d': "\<not> next_enabled (snd (snd (List_browser ?b []))) (done_actions (snd (snd (List_browser ?b []))))"
    using List_cursor_empty_iff [where ?s3.0 = ?b and token = "[]" and ts = "[B1]" and nx = "[]",
        THEN conjunct2, THEN conjunct2, THEN mp, OF d]
    by simp
  have "([]::string) = [] \<longleftrightarrow> ([]::tender list) = []"
    using List_cursor_empty_iff [where ?s1.0 = "snd (List_token ?t [])" and token = "''2''"
        and ts = "[]" and nx = "[]", THEN conjunct1, THEN mp, OF b]
    by simp
  with a b c c' d d' show ?thesis
    by (intro conjI)
qed

section \<open>The far-future date of the browser client\<close>

lemma raw_tenders_append:
  "raw_tenders ds ts b = (Inr out, b') \<Longrightarrow> \<exists>new. out = ts @ new \<and> length new = length ds"
proof (induction ds arbitrary: ts b)
  case Nil
  then show ?case by simp
next
  case (Cons d ds)
  from Cons.prems obtain t b1 where r: "raw_tenders ds (ts @ [t]) b1 = (Inr out, b')"
    by (auto simp add: Now_def split: option.splits prod.splits)
  from Cons.IH [OF r] show ?case by auto
qed

lemma Now_fields:
  "parse_display (snd (Now b)) = parse_display b" "clock (snd (Now b)) = clock b"
  "clock_reads (snd (Now b)) = Suc (clock_reads b)" "fst (Now b) = clock b (clock_reads b)"
  by (simp_all add: Now_def)

lemma raw_tenders_dates:
  assumes "\<forall>d \<in> set ds. Cut (raw_Title d) \<noteq> None
             \<and> parse_display b (DateAvailableDisplay d) \<noteq> None
             \<and> parse_display b (DateClosingDisplay d) \<noteq> None"
  shows "\<exists>out b'. raw_tenders ds ts b = (Inr (ts @ out), b') \<and> length out = length ds
           \<and> (\<forall>i < length ds.
                 IssuedDate (out ! i)
                   = (let issued = the (parse_display b (DateAvailableDisplay (ds ! i)))
                      in if year issued = 9999 then clock b (clock_reads b + i) else issued)
                 \<and> CloseDate (out ! i)
                   = (let closing = the (parse_display b (DateClosingDisplay (ds ! i)))
                      in if year closing = 9999 then clock b (clock_reads b + i) else closing))"
  using assms
proof (induction ds arbitrary: ts b)
  case Nil
  then show ?case by simp
next
  case (Cons d ds)
  from Cons.prems obtain tid rest issued closing
    where c: "Cut (raw_Title d) = Some (tid, rest)"
      and pi: "parse_display b (DateAvailableDisplay d) = Some issued"
      and pc: "parse_display b (DateClosingDisplay d) = Some closing"
    by auto
  let ?b1 = "snd (Now b)"
  let ?now = "clock b (clock_reads b)"
  let ?t = "\<lparr>ID = tid, URL = detail_url b (raw_Id d), Description = tidy b rest,
             Agency = ''Halifax Regional Municipality'',
             IssuedDate = (if year issued = 9999 then ?now else issued),
             CloseDate = (if year closing = 9999 then ?now else closing)\<rparr>"
  have step: "raw_tenders (d # ds) ts b = raw_tenders ds (ts @ [?t]) ?b1"
    using c pi pc by (simp add: Now_def)
  have ok: "\<forall>d \<in> set ds. Cut (raw_Title d) \<noteq> None
             \<and> parse_display ?b1 (DateAvailableDisplay d) \<noteq> None
             \<and> parse_display ?b1 (DateClosingDisplay d) \<noteq> None"
    using Cons.prems by (simp add: Now_fields)
  from Cons.IH [OF ok, of "ts @ [?t]"] obtain out b'
    where r: "raw_tenders ds (ts @ [?t]) ?b1 = (Inr ((ts @ [?t]) @ out), b')"
      and l: "length out = length ds"
      and n: "\<forall>i < length ds.
                 IssuedDate (out ! i)
                   = (let issued = the (parse_display ?b1 (DateAvailableDisplay (ds ! i)))
                      in if year issued = 9999 then clock ?b1 (clock_reads ?b1 + i) else issued)
                 \<and> CloseDate (out ! i)
                   = (let closing = the (parse_display ?b1 (DateClosingDisplay (ds ! i)))
                      in if year closing = 9999 then clock ?b1 (clock_reads ?b1 + i) else closing)"
    by blast
  have "\<forall>i < length (d # ds).
                 IssuedDate ((?t # out) ! i)
                   = (let issued = the (parse_display b (DateAvailableDisplay ((d # ds) ! i)))
                      in if year issued = 9999 then clock b (clock_reads b + i) else issued)
                 \<and> CloseDate ((?t # out) ! i)
                   = (let closing = the (parse_display b (DateClosingDisplay ((d # ds) ! i)))
                      in if year closing = 9999 then clock b (clock_reads b + i) else closing)"
  proof (intro allI impI)
    fix i assume "i < length (d # ds)"
    then show "IssuedDate ((?t # out) ! i)
                   = (let issued = the (parse_display b (DateAvailableDisplay ((d # ds) ! i)))
                      in if year issued = 9999 then clock b (clock_reads b + i) else issued)
                 \<and> CloseDate ((?t # out) ! i)
                   = (let closing = the (parse_display b (DateClosingDisplay ((d # ds) ! i)))
                      in if year closing = 9999 then clock b (clock_reads b + i) else closing)"
      using n pi pc by (cases i) (simp_all add: Now_fields Let_def)
  qed
  with step r l show ?case
    by (intro exI [of _ "?t # out"] exI [of _ b']) simp
qed

lemma act_fields:
  "parse_display (snd (act a b)) = parse_display b" "clock (snd (act a b)) = clock b"
  "clock_reads (snd (act a b)) = clock_reads b"
  by (simp_all add: act_def)

lemma bootstrap_fields:
  "parse_display (snd (bootstrap steps b)) = parse_display b
   \<and> clock (snd (bootstrap steps b)) = clock b
   \<and> clock_reads (snd (bootstrap steps b)) = clock_reads b"
proof (induction steps arbitrary: b)
  case Nil
  then show ?case by simp
next
  case (Cons st steps)
  obtain a msg where st: "st = (a, msg)" by (cases st)
  from Cons.IH [of "b\<lparr>done_actions := done_actions b @ [a]\<rparr>"] show ?case
    by (simp add: st act_def split: bool.splits)
qed

lemma init_browser_fields:
  "parse_display (snd (snd (init_browser s))) = parse_display (snd s)
   \<and> clock (snd (snd (init_browser s))) = clock (snd s)
   \<and> clock_reads (snd (snd (init_browser s))) = clock_reads (snd s)"
  using bootstrap_fields [of init_steps "snd s"]
  by (cases s; cases "bootstrap init_steps (snd s)")
     (auto simp add: init_browser_def split: option.splits)

lemma at_lock_fields:
  "parse_display (at_lock s token) = parse_display (snd s)"
  "clock (at_lock s token) = clock (snd s)"
  "clock_reads (at_lock s token) = clock_reads (snd s)"
  using init_browser_fields [of s] by (simp_all add: at_lock_def Let_def act_fields)

lemma List_browser_success:
  assumes "fst (List_browser s token) = Inr (ts, nx)"
  shows "\<exists>r rest b3. buffered s token = r # rest \<and> raw_tenders r [] (at_lock s token) = (Inr ts, b3)"
  using assms
  by (auto simp add: List_browser_def buffered_def at_lock_def dequeue_def Let_def act_def
      split: prod.splits option.splits sum.splits bool.splits list.splits if_splits)

lemma raw_tenders_success:
  "raw_tenders ds ts b = (Inr out, b') \<Longrightarrow>
   \<forall>d \<in> set ds. Cut (raw_Title d) \<noteq> None
     \<and> parse_display b (DateAvailableDisplay d) \<noteq> None
     \<and> parse_display b (DateClosingDisplay d) \<noteq> None"
proof (induction ds arbitrary: ts b)
  case Nil
  then show ?case by simp
next
  case (Cons d ds)
  from Cons.prems obtain t where r: "raw_tenders ds (ts @ [t]) (snd (Now b)) = (Inr out, b')"
    and ok: "Cut (raw_Title d) \<noteq> None" "parse_display b (DateAvailableDisplay d) \<noteq> None"
      "parse_display b (DateClosingDisplay d) \<noteq> None"
    by (auto simp add: Now_def split: option.splits prod.splits)
  from Cons.IH [OF r] ok show ?case
    by (simp add: Now_fields)
qed

text \<open>
  C10: when \<open>List\<close> of the browser client succeeds, its records are those of the first
  payload of the buffer, one for each entry; wherever the issue date or the close date of
  an entry parses to the year 9999, the record carries in its place the time of the clock
  read for that entry. No entry is refused for that year: the loop over a payload succeeds
  as soon as every title can be cut and every date parses. And the store writes a record's
  two dates as they are, so that the row of such a record holds the day of the run.
\<close>

theorem year_9999_is_replaced_by_now:
  "(fst (List_browser s token) = Inr (ts, nx) \<longrightarrow>
      buffered s token \<noteq> [] \<and> length ts = length (hd (buffered s token))
      \<and> (\<forall>i < length ts.
            (\<forall>issued. parse_display (snd s) (DateAvailableDisplay (hd (buffered s token) ! i)) = Some issued
                 \<and> year issued = 9999 \<longrightarrow>
               IssuedDate (ts ! i) = clock (snd s) (clock_reads (snd s) + i))
          \<and> (\<forall>closing. parse_display (snd s) (DateClosingDisplay (hd (buffered s token) ! i)) = Some closing
                 \<and> year closing = 9999 \<longrightarrow>
               CloseDate (ts ! i) = clock (snd s) (clock_reads (snd s) + i))))
   \<and> ((\<forall>d \<in> set ds. Cut (raw_Title d) \<noteq> None
           \<and> parse_display b (DateAvailableDisplay d) \<noteq> None
           \<and> parse_display b (DateClosingDisplay d) \<noteq> None) \<longrightarrow>
        (\<exists>out. fst (raw_tenders ds [] b) = Inr out \<and> length out = length ds))
   \<and> (calm 1 st \<and> ID t \<notin> set (ids st) \<longrightarrow>
        fst (add t st) = Inr True
        \<and> tenders (snd (add t st)) = tenders st @ [row_of t (now_at st (ticks st))]
        \<and> col_issued (row_of t (now_at st (ticks st))) = Format_date (IssuedDate t)
        \<and> col_close (row_of t (now_at st (ticks st))) = Format_date (CloseDate t))"
proof (intro conjI impI)
  assume a: "fst (List_browser s token) = Inr (ts, nx)"
  then obtain r rest b3 where q: "buffered s token = r # rest"
    and l: "raw_tenders r [] (at_lock s token) = (Inr ts, b3)"
    using List_browser_success by blast
  from raw_tenders_dates [OF raw_tenders_success [OF l], of "[]"] l
  have n: "length ts = length r"
    and d: "\<forall>i < length r.
                 IssuedDate (ts ! i)
                   = (let issued = the (parse_display (snd s) (DateAvailableDisplay (r ! i)))
                      in if year issued = 9999 then clock (snd s) (clock_reads (snd s) + i) else issued)
                 \<and> CloseDate (ts ! i)
                   = (let closing = the (parse_display (snd s) (DateClosingDisplay (r ! i)))
                      in if year closing = 9999 then clock (snd s) (clock_reads (snd s) + i) else closing)"
    by (auto simp add: at_lock_fields Let_def)
  show "buffered s token \<noteq> []"
    using q by simp
  show "length ts = length (hd (buffered s token))"
    using q n by simp
  show "\<forall>i < length ts.
            (\<forall>issued. parse_display (snd s) (DateAvailableDisplay (hd (buffered s token) ! i)) = Some issued
                 \<and> year issued = 9999 \<longrightarrow>
               IssuedDate (ts ! i) = clock (snd s) (clock_reads (snd s) + i))
          \<and> (\<forall>closing. parse_display (snd s) (DateClosingDisplay (hd (buffered s token) ! i)) = Some closing
                 \<and> year closing = 9999 \<longrightarrow>
               CloseDate (ts ! i) = clock (snd s) (clock_reads (snd s) + i))"
    using d n q by (auto simp add: Let_def)
next
  assume "\<forall>d \<in> set ds. Cut (raw_Title d) \<noteq> None
           \<and> parse_display b (DateAvailableDisplay d) \<noteq> None
           \<and> parse_display b (DateClosingDisplay d) \<noteq> None"
  from raw_tenders_dates [OF this, of "[]"]
  show "\<exists>out. fst (raw_tenders ds [] b) = Inr out \<and> length out = length ds"
    by auto
next
  assume a: "calm 1 st \<and> ID t \<notin> set (ids st)"
  then show "fst (add t st) = Inr True"
    using add_calm_fst [of 0 st t] by simp
  from a show "tenders (snd (add t st)) = tenders st @ [row_of t (now_at st (ticks st))]"
    using add_calm_rows [of 0 st t] by simp
  show "col_issued (row_of t (now_at st (ticks st))) = Format_date (IssuedDate t)"
    by (simp add: row_of_def)
  show "col_close (row_of t (now_at st (ticks st))) = Format_date (CloseDate t)"
    by (simp add: row_of_def)
qed

theorem year_9999_is_replaced_by_now_witness:
  "fst (List_browser (new_browser_client, small_browser) []) = Inr ([B1], [])
   \<and> hd (buffered (new_browser_client, small_browser) []) ! 0 = raw1
   \<and> parse_display small_browser (DateClosingDisplay raw1) = Some (day_at 9999 12 31)
   \<and> CloseDate B1 = clock small_browser 0
   \<and> fst (raw_tenders [raw1] [] small_browser) = Inr [B1]
   \<and> fst (add B1 empty_store) = Inr True
   \<and> map col_close (tenders (snd (add B1 empty_store))) = [''2024-06-15'']"
proof -
  let ?s = "(new_browser_client, small_browser)"
  have a: "fst (List_browser ?s []) = Inr ([B1], [])"
    by code_simp
  have h: "hd (buffered ?s []) ! 0 = raw1"
    by code_simp
  have p: "parse_display (snd ?s) (DateClosingDisplay (hd (buffered ?s []) ! 0)) = Some (day_at 9999 12 31)
           \<and> year (day_at 9999 12 31) = 9999"
    unfolding h by (simp add: small_browser_def raw1_def day_at_def)
  from year_9999_is_replaced_by_now [where s = ?s and token = "[]" and ts = "[B1]" and nx = "[]",
      THEN conjunct1, THEN mp, OF a]
  have "\<forall>closing. parse_display (snd ?s) (DateClosingDisplay (hd (buffered ?s []) ! 0)) = Some closing
                 \<and> year closing = 9999 \<longrightarrow>
               CloseDate ([B1] ! 0) = clock (snd ?s) (clock_reads (snd ?s) + 0)"
    by simp
  with p have c: "CloseDate B1 = clock small_browser 0"
    by (simp add: small_browser_def)
  have ok: "\<forall>d \<in> set [raw1]. Cut (raw_Title d) \<noteq> None
           \<and> parse_display small_browser (DateAvailableDisplay d) \<noteq> None
           \<and> parse_display small_browser (DateClosingDisplay d) \<noteq> None"
    by (simp add: small_browser_def raw1_def)
  from year_9999_is_replaced_by_now [where ds = "[raw1]" and b = small_browser,
      THEN conjunct2, THEN conjunct1, THEN mp, OF ok]
  obtain out where "fst (raw_tenders [raw1] [] small_browser) = Inr out"
    by blast
  moreover have "fst (raw_tenders [raw1] [] small_browser) = Inr [B1]"
    by code_simp
  ultimately have r: "fst (raw_tenders [raw1] [] small_browser) = Inr [B1]"
    by simp
  have k: "calm 1 empty_store \<and> ID B1 \<notin> set (ids empty_store)"
    by (simp add: calm_def empty_store_def ids_def)
  note w = year_9999_is_replaced_by_now [where st = empty_store and t = B1,
      THEN conjunct2, THEN conjunct2, THEN mp, OF k]
  have f: "Format_date (CloseDate B1) = ''2024-06-15''"
    by code_simp
  from w f have s1: "fst (add B1 empty_store) = Inr True"
    and s2: "map col_close (tenders (snd (add B1 empty_store))) = [''2024-06-15'']"
    by (simp_all add: empty_store_def)
  from p have p': "parse_display small_browser (DateClosingDisplay raw1) = Some (day_at 9999 12 31)"
    unfolding h by simp
  from a h p' c r s1 s2 show ?thesis
    by (intro conjI)
qed

section \<open>The capture buffer is first in, first out\<close>

lemma coherent_start: "\<forall>t \<in> set ts. outside t \<Longrightarrow> coherent q (initially q ts)"
  by (simp add: coherent_def initially_def)

lemma outside_simps [simp]:
  "outside (Hook x)" "outside HookDone" "outside Lister" "outside (ListerDone res)"
  "\<not> outside (HookLocked x)" "\<not> outside (HookRead x q)" "\<not> outside HookWritten"
  "\<not> outside ListerLocked" "\<not> outside (ListerRead r rest)" "\<not> outside (ListerReturning res)"
  by (simp_all add: outside_def)

lemma coherent_step:
  assumes "coherent q0 s"
  shows "coherent q0 (step i s)"
proof (cases "length (threads s) \<le> i")
  case True
  with assms show ?thesis by (simp add: step_def)
next
  case False
  then have i: "i < length (threads s)" by simp
  show ?thesis
  proof (cases "holder s = None \<or> holder s = Some i")
    case False
    then obtain k where k: "holder s = Some k" "k \<noteq> i"
      by auto
    with assms i have "outside (threads s ! i)"
      by (simp add: coherent_def)
    then have "step i s = s"
      using i k by (cases "threads s ! i") (simp_all add: step_def)
    with assms show ?thesis by simp
  next
    case True
    then show ?thesis
    proof
      assume n: "holder s = None"
      with assms i have o: "\<forall>j < length (threads s). outside (threads s ! j)"
        and e: "q0 @ appended s = taken s @ buffer s"
        by (simp_all add: coherent_def)
      from o i have "outside (threads s ! i)" by simp
      then show ?thesis
        using i n o e
        by (cases "threads s ! i")
           (auto simp add: step_def coherent_def nth_list_update assms)
    next
      assume h: "holder s = Some i"
      with assms i have o: "\<forall>j < length (threads s). j \<noteq> i \<longrightarrow> outside (threads s ! j)"
        by (simp add: coherent_def)
      from assms h i show ?thesis
        using o
        by (cases "threads s ! i")
           (auto simp add: step_def coherent_def nth_list_update enqueue_def dequeue_def
              split: list.splits)
    qed
  qed
qed

lemma coherent_run: "coherent q0 s \<Longrightarrow> coherent q0 (run schedule s)"
  unfolding run_def by (induction schedule arbitrary: s) (simp_all add: coherent_step)

lemma coherent_prefix: "coherent q0 s \<Longrightarrow> prefix (taken s) (q0 @ appended s)"
  by (cases "holder s"; cases "threads s ! the (holder s)")
     (auto simp add: coherent_def)

text \<open>
  C9: whatever the interleaving of the hook goroutines and the calls of \<open>List\<close>, the
  payloads taken from the buffer are, in order, the first of the payloads the buffer held at
  the start followed by the payloads appended: the k-th payload taken is the k-th of them.
  So of two payloads appended one after the other, the first is taken first. In a single
  thread: a payload appended to a buffer is taken after the payloads that were there, and
  \<open>dequeue\<close> takes the oldest.
\<close>

theorem capture_buffer_fifo:
  assumes "\<forall>t \<in> set ts. outside t"
  shows "prefix (taken (run schedule (initially q ts)))
           (q @ appended (run schedule (initially q ts)))
       \<and> (\<forall>k < length (taken (run schedule (initially q ts))).
             taken (run schedule (initially q ts)) ! k
               = (q @ appended (run schedule (initially q ts))) ! k)
       \<and> dequeue (x # enqueue a (enqueue b w)) = Inr (x, w @ [b, a])
       \<and> dequeue (enqueue a []) = Inr (a, [])"
proof -
  let ?s = "run schedule (initially q ts)"
  have "coherent q ?s"
    by (rule coherent_run [OF coherent_start [OF assms]])
  then have p: "prefix (taken ?s) (q @ appended ?s)"
    by (rule coherent_prefix)
  then obtain zs where "q @ appended ?s = taken ?s @ zs"
    by (auto simp add: prefix_def)
  then have "\<forall>k < length (taken ?s). taken ?s ! k = (q @ appended ?s) ! k"
    by (simp add: nth_append)
  with p show ?thesis
    by (simp add: dequeue_def enqueue_def)
qed

theorem capture_buffer_fifo_witness:
  "taken (run [0, 1, 0, 2, 0, 1, 0, 1, 1, 2, 1, 1, 3, 2, 3, 2, 3, 3, 2, 2, 2, 2]
            (initially [] [Hook ''A'', Hook ''B'', Lister, Lister])) = [''A'', ''B'']
   \<and> appended (run [0, 1, 0, 2, 0, 1, 0, 1, 1, 2, 1, 1, 3, 2, 3, 2, 3, 3, 2, 2, 2, 2]
            (initially [] [Hook ''A'', Hook ''B'', Lister, Lister])) = [''A'', ''B'']
   \<and> threads (run [0, 1, 0, 2, 0, 1, 0, 1, 1, 2, 1, 1, 3, 2, 3, 2, 3, 3, 2, 2, 2, 2]
            (initially [] [Hook ''A'', Hook ''B'', Lister, Lister]))
       = [HookDone, HookDone, ListerDone (Inr ''B''), ListerDone (Inr ''A'')]"
proof -
  let ?s = "run [0, 1, 0, 2, 0, 1, 0, 1, 1, 2, 1, 1, 3, 2, 3, 2, 3, 3, 2, 2, 2, 2]
              (initially [] [Hook ''A'', Hook ''B'', Lister, Lister])"
  have o: "\<forall>t \<in> set [Hook ''A'', Hook ''B'', Lister, Lister]. outside t"
    by simp
  have a: "appended ?s = [''A'', ''B'']"
    by code_simp
  have n: "length (taken ?s) = 2"
    by code_simp
  have t: "threads ?s = [HookDone, HookDone, ListerDone (Inr ''B''), ListerDone (Inr ''A'')]"
    by code_simp
  from capture_buffer_fifo [OF o, of "[0, 1, 0, 2, 0, 1, 0, 1, 1, 2, 1, 1, 3, 2, 3, 2, 3, 3, 2, 2, 2, 2]" "[]",
      THEN conjunct2, THEN conjunct1]
  have "\<forall>k < length (taken ?s). taken ?s ! k = ([] @ appended ?s) ! k"
    by blast
  with a n have "taken ?s ! 0 = ''A''" "taken ?s ! 1 = ''B''"
    by simp_all
  with n have "taken ?s = [''A'', ''B'']"
    by (cases "taken ?s"; cases "tl (taken ?s)") auto
  with a t show ?thesis
    by (intro conjI)
qed

end
